theory Spec2Isabelle
  imports Main "HOL-Library.Sublist"
begin

section \<open>Python built-ins used by the disassembler\<close>

text \<open>
  The program is a single Python file. Its integers are unbounded (\<open>int\<close>), its strings
  are modelled as \<open>string\<close>; the model covers ASCII text, which is all the program
  itself ever produces. Every exception the modelled code can raise is a value of
  \<open>error\<close>, returned as \<open>Inl\<close>.
\<close>

datatype error = IndexError | ValueError | TypeError

definition py_ord :: "char \<Rightarrow> int" where
  "py_ord c = of_char c"

definition py_chr :: "int \<Rightarrow> char" where
  \<comment> \<open>\<open>chr(n)\<close>; the program only calls it with \<open>65 \<le> n \<le> 90\<close> (see \<open>to_excel\<close>).\<close>
  "py_chr n = char_of n"

definition py_isspace :: "char \<Rightarrow> bool" where
  "py_isspace c = ((9 \<le> py_ord c \<and> py_ord c \<le> 13) \<or> (28 \<le> py_ord c \<and> py_ord c \<le> 32))"

definition py_isalpha :: "char \<Rightarrow> bool" where
  "py_isalpha c = ((65 \<le> py_ord c \<and> py_ord c \<le> 90) \<or> (97 \<le> py_ord c \<and> py_ord c \<le> 122))"

definition py_upper :: "char \<Rightarrow> char" where
  "py_upper c = (if 97 \<le> py_ord c \<and> py_ord c \<le> 122 then py_chr (py_ord c - 32) else c)"

definition strip :: "string \<Rightarrow> string" where
  "strip s = rev (dropWhile py_isspace (rev (dropWhile py_isspace s)))"

definition hexdigits :: string where
  "hexdigits = ''0123456789ABCDEF''"

definition digit_char :: "nat \<Rightarrow> char" where
  "digit_char d = hexdigits ! d"

text \<open>The digits of a natural number in base \<open>b\<close>, most significant first.\<close>

function digits_of :: "nat \<Rightarrow> nat \<Rightarrow> string" where
  "digits_of b n =
     (if n < b \<or> b < 2 then [digit_char n]
      else digits_of b (n div b) @ [digit_char (n mod b)])"
  by pat_completeness auto
termination
  by (relation "measure (\<lambda>(b, n). n)") auto

declare digits_of.simps [simp del]

definition py_str :: "int \<Rightarrow> string" where
  \<comment> \<open>\<open>str(n)\<close> of an integer\<close>
  "py_str n = (if n < 0 then CHR ''-'' # digits_of 10 (nat (- n)) else digits_of 10 (nat n))"

definition format_X :: "nat \<Rightarrow> int \<Rightarrow> string" where
  \<comment> \<open>\<open>f'{n:0wX}'\<close> and \<open>'%0wX' % n\<close>: upper-case hexadecimal, zero-padded after the sign
     to a total width of \<open>w\<close>\<close>
  "format_X w n =
     (let sign = (if n < 0 then ''-'' else '''');
          ds = digits_of 16 (nat \<bar>n\<bar>)
      in sign @ replicate (w - length sign - length ds) CHR ''0'' @ ds)"

definition digit_val :: "char \<Rightarrow> nat option" where
  "digit_val c =
     (if 48 \<le> py_ord c \<and> py_ord c \<le> 57 then Some (nat (py_ord c - 48))
      else if 97 \<le> py_ord c \<and> py_ord c \<le> 122 then Some (nat (py_ord c - 87))
      else if 65 \<le> py_ord c \<and> py_ord c \<le> 90 then Some (nat (py_ord c - 55))
      else None)"

text \<open>
  The digit part of an integer literal as \<open>int()\<close> reads it: digits of the base, where a
  single underscore may stand between two digits.
\<close>

fun int_digits :: "nat \<Rightarrow> nat \<Rightarrow> string \<Rightarrow> nat option" where
  "int_digits b acc [] = Some acc"
| "int_digits b acc (c # cs) =
     (if c = CHR ''_'' then
        (case cs of [] \<Rightarrow> None
         | d # _ \<Rightarrow> if d = CHR ''_'' then None else int_digits b acc cs)
      else case digit_val c of
        None \<Rightarrow> None
      | Some d \<Rightarrow> if d < b then int_digits b (acc * b + d) cs else None)"

definition split_sign :: "string \<Rightarrow> bool \<times> string" where
  "split_sign s =
     (case s of [] \<Rightarrow> (False, [])
      | c # r \<Rightarrow> if c = CHR ''-'' then (True, r) else if c = CHR ''+'' then (False, r) else (False, s))"

definition skip_prefix :: "nat \<Rightarrow> string \<Rightarrow> string" where
  \<comment> \<open>base 16 accepts a leading \<open>0x\<close> or \<open>0X\<close>, and one underscore after it\<close>
  "skip_prefix b s =
     (case s of
        c0 # cx # r \<Rightarrow>
          if b = 16 \<and> c0 = CHR ''0'' \<and> (cx = CHR ''x'' \<or> cx = CHR ''X'')
          then (case r of [] \<Rightarrow> r | u # r' \<Rightarrow> if u = CHR ''_'' then r' else r)
          else s
      | _ \<Rightarrow> s)"

definition py_int :: "nat \<Rightarrow> string \<Rightarrow> error + int" where
  \<comment> \<open>\<open>int(s, b)\<close> for \<open>b\<close> 10 or 16: surrounding whitespace, a sign, the prefix, the digits\<close>
  "py_int b s =
     (let (neg, u) = split_sign (strip s);
          v = skip_prefix b u
      in case v of
           [] \<Rightarrow> Inl ValueError
         | c # _ \<Rightarrow>
             if c = CHR ''_'' then Inl ValueError
             else (case int_digits b 0 v of
                     None \<Rightarrow> Inl ValueError
                   | Some n \<Rightarrow> Inr (if neg then - int n else int n)))"

section \<open>Class \<open>Address\<close>\<close>

datatype Address = Address (address: int)

datatype address_style = Deci | Hex | Rowcol | Excel

definition to_hex :: "Address \<Rightarrow> string" where
  "to_hex self = format_X 4 (address self)"

definition to_row_col :: "Address \<Rightarrow> int \<times> int" where
  "to_row_col self = (address self div 0x100, address self mod 0x100)"

definition to_excel :: "Address \<Rightarrow> string" where
  "to_excel self =
     (let (row, col) = to_row_col self
      in if col \<ge> 26 then [py_chr (col div 26 + 65), py_chr (col mod 26 + 65)] @ py_str (row + 1)
         else [py_chr (col + 65)] @ py_str (row + 1))"

definition from_hex :: "string \<Rightarrow> error + Address" where
  "from_hex hex_str = (case py_int 16 hex_str of Inl e \<Rightarrow> Inl e | Inr n \<Rightarrow> Inr (Address n))"

definition from_row_col :: "int \<Rightarrow> int \<Rightarrow> Address" where
  "from_row_col row col = Address (row * 0x100 + col)"

definition from_excel :: "string \<Rightarrow> error + Address" where
  "from_excel excel_str =
     (if length excel_str < 2 then Inl IndexError
      else if py_isalpha (excel_str ! 1) then
        (let col_h = py_ord (py_upper (excel_str ! 0)) - 65;
             col_l = py_ord (py_upper (excel_str ! 1)) - 65;
             col = col_h * 26 + col_l
         in case py_int 10 (drop 2 excel_str) of
              Inl e \<Rightarrow> Inl e
            | Inr r \<Rightarrow> Inr (from_row_col (r - 1) col))
      else
        (let col = py_ord (py_upper (excel_str ! 0)) - 65
         in case py_int 10 (drop 1 excel_str) of
              Inl e \<Rightarrow> Inl e
            | Inr r \<Rightarrow> Inr (from_row_col (r - 1) col)))"

definition str_Address :: "address_style \<Rightarrow> Address \<Rightarrow> string" where
  \<comment> \<open>\<open>Address.__str__\<close>, with \<open>args.address_style\<close> as a parameter\<close>
  "str_Address style self =
     (case style of
        Deci \<Rightarrow> py_str (address self)
      | Hex \<Rightarrow> to_hex self
      | Rowcol \<Rightarrow> (let (row, col) = to_row_col self in py_str row @ ''_'' @ py_str col)
      | Excel \<Rightarrow> to_excel self)"

definition tab_pad :: "address_style \<Rightarrow> Address \<Rightarrow> string" where
  "tab_pad style self =
     str_Address style self @ (if length (str_Address style self) < 4 then [CHR 0x09] else [])"



section \<open>Class \<open>Cell\<close> and the memory image\<close>

record Cell =
  data :: int
  label :: "string option"
  exec_from_prev :: "Address option"
  is_2nd_word :: bool
  read_from :: "Address list"
  write_from :: "Address list"
  jump_from :: "Address list"

definition Cell_init :: "int \<Rightarrow> Cell" where
  \<comment> \<open>\<open>Cell.__init__(data)\<close>\<close>
  "Cell_init d =
     \<lparr>data = d, label = None, exec_from_prev = None, is_2nd_word = False,
      read_from = [], write_from = [], jump_from = []\<rparr>"

text \<open>
  The global \<open>cells\<close> is a Python list. An index \<open>i\<close> with \<open>-len \<le> i < 0\<close> counts from
  the end; any index outside \<open>[-len, len)\<close> raises IndexError.
\<close>

definition py_index :: "nat \<Rightarrow> int \<Rightarrow> nat option" where
  "py_index n i =
     (if 0 \<le> i \<and> i < int n then Some (nat i)
      else if - int n \<le> i \<and> i < 0 then Some (nat (int n + i))
      else None)"

definition cell_at :: "Cell list \<Rightarrow> int \<Rightarrow> error + Cell" where
  \<comment> \<open>reading \<open>cells[i]\<close>\<close>
  "cell_at cells i =
     (case py_index (length cells) i of None \<Rightarrow> Inl IndexError | Some k \<Rightarrow> Inr (cells ! k))"

definition cell_update :: "Cell list \<Rightarrow> int \<Rightarrow> (Cell \<Rightarrow> Cell) \<Rightarrow> error + Cell list" where
  \<comment> \<open>mutating the object \<open>cells[i]\<close> in place\<close>
  "cell_update cells i f =
     (case py_index (length cells) i of
        None \<Rightarrow> Inl IndexError
      | Some k \<Rightarrow> Inr (cells[k := f (cells ! k)]))"

text \<open>
  \<open>load_excel\<close>: 65536 fresh cells, then every worksheet cell that has a value stores it
  at \<open>(row - 1) * 0x100 + (column - 1)\<close>. The worksheet is the list of its non-empty
  cells as (row, column, value), in iteration order.
\<close>

fun store_cells :: "Cell list \<Rightarrow> (int \<times> int \<times> int) list \<Rightarrow> error + Cell list" where
  "store_cells cells [] = Inr cells"
| "store_cells cells ((row, column, v) # ws) =
     (case cell_update cells ((row - 1) * 0x100 + (column - 1)) (\<lambda>c. c\<lparr>data := v\<rparr>) of
        Inl e \<Rightarrow> Inl e
      | Inr cells' \<Rightarrow> store_cells cells' ws)"

definition load_excel :: "(int \<times> int \<times> int) list \<Rightarrow> error + Cell list" where
  "load_excel ws = store_cells (replicate 0x10000 (Cell_init 0)) ws"

section \<open>Command-line arguments\<close>

record args =
  input :: string
  address_style :: address_style
  include_address :: bool
  include_data :: bool
  decode_all :: bool
  no_warnings :: bool

section \<open>The tracer: \<open>preparation\<close>\<close>

definition opcode :: "int \<Rightarrow> int" where
  "opcode x = drop_bit 8 x"

text \<open>
  Lines 94 to 101: the entry point. The label text is built by the f-string from
  \<open>Address.__str__\<close>, which reads \<open>args.address_style\<close>.
\<close>

definition get_entry :: "args \<Rightarrow> Cell list \<Rightarrow> error + (Cell list \<times> int)" where
  "get_entry a cells =
     (case cell_at cells 0 of
        Inl e \<Rightarrow> Inl e
      | Inr c0 \<Rightarrow>
          if data c0 = 0 then
            (case cell_at cells 1 of
               Inl e \<Rightarrow> Inl e
             | Inr c1 \<Rightarrow>
                 (case cell_update cells (data c1)
                         (\<lambda>t. t\<lparr>label := Some (''Entrypoint_'' @ str_Address (address_style a) (Address (data c1)))\<rparr>) of
                    Inl e \<Rightarrow> Inl e
                  | Inr cells1 \<Rightarrow>
                      (case cell_update cells1 (data c1)
                              (\<lambda>t. t\<lparr>jump_from := jump_from t @ [Address 0]\<rparr>) of
                         Inl e \<Rightarrow> Inl e
                       | Inr cells2 \<Rightarrow> Inr (cells2, data c1))))
          else Inr (cells, 0))"

text \<open>Lines 104 to 106: \<open>while cells[last].data == 0: last -= 1\<close>, from \<open>last\<close> on.\<close>

function find_last :: "Cell list \<Rightarrow> int \<Rightarrow> error + int" where
  "find_last cells last' =
     (case cell_at cells last' of
        Inl e \<Rightarrow> Inl e
      | Inr c \<Rightarrow> if data c = 0 then find_last cells (last' - 1) else Inr last')"
  by pat_completeness auto
termination
  by (relation "measure (\<lambda>(cells, last'). nat (last' + int (length cells) + 1))")
     (auto simp: cell_at_def py_index_def split: if_splits)

declare find_last.simps [simp del]

text \<open>
  Lines 109 to 125: \<open>one_instruction\<close>. The word \<open>cells[pc_].data\<close> is read once here;
  the source reads it again in every test, but no statement of the program changes a
  \<open>data\<close> field or the length of \<open>cells\<close> after loading.
\<close>

definition record_xref :: "Cell list \<Rightarrow> int \<Rightarrow> error + Cell list" where
  \<comment> \<open>the \<open>if\<close>/\<open>elif\<close> chain of lines 112 to 117\<close>
  "record_xref cells pc' =
     (case cell_at cells pc' of
        Inl e \<Rightarrow> Inl e
      | Inr c \<Rightarrow>
          if opcode (data c) < 4 then
            (case cell_at cells (pc' + 1) of
               Inl e \<Rightarrow> Inl e
             | Inr n \<Rightarrow> cell_update cells (data n) (\<lambda>t. t\<lparr>jump_from := jump_from t @ [Address pc']\<rparr>))
          else if opcode (data c) = 4 then
            (case cell_at cells (pc' + 1) of
               Inl e \<Rightarrow> Inl e
             | Inr n \<Rightarrow> cell_update cells (data n) (\<lambda>t. t\<lparr>read_from := read_from t @ [Address pc']\<rparr>))
          else if opcode (data c) = 6 then
            (case cell_at cells (pc' + 1) of
               Inl e \<Rightarrow> Inl e
             | Inr n \<Rightarrow> cell_update cells (data n) (\<lambda>t. t\<lparr>write_from := write_from t @ [Address pc']\<rparr>))
          else Inr cells)"

definition advance :: "Cell list \<Rightarrow> int \<Rightarrow> error + (Cell list \<times> int)" where
  \<comment> \<open>lines 118 to 122: the second word and the width\<close>
  "advance cells pc' =
     (case cell_at cells pc' of
        Inl e \<Rightarrow> Inl e
      | Inr c \<Rightarrow>
          if opcode (data c) < 7 then
            (case cell_update cells (pc' + 1) (\<lambda>t. t\<lparr>is_2nd_word := True\<rparr>) of
               Inl e \<Rightarrow> Inl e
             | Inr cells' \<Rightarrow> Inr (cells', pc' + 2))
          else Inr (cells, pc' + 1))"

definition one_instruction :: "Cell list \<Rightarrow> int \<Rightarrow> error + (Cell list \<times> int)" where
  "one_instruction cells pc' =
     (let pc_here = pc' in
      case record_xref cells pc' of
        Inl e \<Rightarrow> Inl e
      | Inr cells1 \<Rightarrow>
          (case advance cells1 pc' of
             Inl e \<Rightarrow> Inl e
           | Inr (cells2, pc_next) \<Rightarrow>
               (case cell_at cells2 pc_here of
                  Inl e \<Rightarrow> Inl e
                | Inr c \<Rightarrow>
                    if data c \<noteq> 0 then
                      (case cell_update cells2 pc_next (\<lambda>t. t\<lparr>exec_from_prev := Some (Address pc_here)\<rparr>) of
                         Inl e \<Rightarrow> Inl e
                       | Inr cells3 \<Rightarrow> Inr (cells3, pc_next))
                    else Inr (cells2, pc_next))))"

text \<open>Lines 128 and 129: \<open>while pc <= last: pc = one_instruction(pc)\<close>.\<close>

function main_sweep :: "Cell list \<Rightarrow> int \<Rightarrow> int \<Rightarrow> error + Cell list" where
  "main_sweep cells pc last' =
     (if pc \<le> last' then
        (case one_instruction cells pc of
           Inl e \<Rightarrow> Inl e
         | Inr (cells', pc') \<Rightarrow> main_sweep cells' pc' last')
      else Inr cells)"
  by pat_completeness auto
termination
  by (relation "measure (\<lambda>(cells, pc, last'). nat (last' + 1 - pc))")
     (auto simp: one_instruction_def advance_def split: if_splits sum.splits prod.splits)

declare main_sweep.simps [simp del]

text \<open>Lines 132 to 137: the cells before the entry point.\<close>

function pre_entry :: "Cell list \<Rightarrow> int \<Rightarrow> int \<Rightarrow> error + Cell list" where
  "pre_entry cells x entry =
     (if x < entry then
        (case cell_at cells x of
           Inl e \<Rightarrow> Inl e
         | Inr c \<Rightarrow>
             if length (jump_from c) = 0 \<and> exec_from_prev c = None then pre_entry cells (x + 1) entry
             else (case one_instruction cells x of
                     Inl e \<Rightarrow> Inl e
                   | Inr (cells', x') \<Rightarrow> pre_entry cells' x' entry))
      else Inr cells)"
  by pat_completeness auto
termination
  by (relation "measure (\<lambda>(cells, x, entry). nat (entry - x))")
     (auto simp: one_instruction_def advance_def split: if_splits sum.splits prod.splits)

declare pre_entry.simps [simp del]

text \<open>Lines 140 to 144: the labels of jump targets.\<close>

function set_label :: "args \<Rightarrow> Cell list \<Rightarrow> int \<Rightarrow> int \<Rightarrow> error + Cell list" where
  "set_label a cells pc last' =
     (if pc \<le> last' then
        (case cell_at cells pc of
           Inl e \<Rightarrow> Inl e
         | Inr c \<Rightarrow>
             if \<not> is_2nd_word c \<and> label c = None \<and> length (jump_from c) \<noteq> 0 then
               (case cell_update cells pc
                       (\<lambda>t. t\<lparr>label := Some (''loc_'' @ tab_pad (address_style a) (Address pc))\<rparr>) of
                  Inl e \<Rightarrow> Inl e
                | Inr cells' \<Rightarrow> set_label a cells' (pc + 1) last')
             else set_label a cells (pc + 1) last')
      else Inr cells)"
  by pat_completeness auto
termination
  by (relation "measure (\<lambda>(a, cells, pc, last'). nat (last' + 1 - pc))") auto

declare set_label.simps [simp del]

text \<open>\<open>preparation\<close> returns the globals it sets: \<open>cells\<close>, \<open>entry\<close> and \<open>last\<close>.\<close>

definition preparation :: "args \<Rightarrow> Cell list \<Rightarrow> error + (Cell list \<times> int \<times> int)" where
  "preparation a cells =
     (case get_entry a cells of
        Inl e \<Rightarrow> Inl e
      | Inr (cells1, entry) \<Rightarrow>
          (case find_last cells1 0xffff of
             Inl e \<Rightarrow> Inl e
           | Inr last' \<Rightarrow>
               (case main_sweep cells1 entry last' of
                  Inl e \<Rightarrow> Inl e
                | Inr cells2 \<Rightarrow>
                    (case pre_entry cells2 0 entry of
                       Inl e \<Rightarrow> Inl e
                     | Inr cells3 \<Rightarrow>
                         (case set_label a cells3 entry last' of
                            Inl e \<Rightarrow> Inl e
                          | Inr cells4 \<Rightarrow> Inr (cells4, entry, last'))))))"

section \<open>Predicates and example images used in the statements\<close>

definition sweep_le :: "Cell \<Rightarrow> Cell \<Rightarrow> bool" where
  \<comment> \<open>what a sweep may do to a cell: append cross-references, set \<open>is_2nd_word\<close>, set
     \<open>exec_from_prev\<close>\<close>
  "sweep_le c c' =
     (data c' = data c \<and> label c' = label c \<and> (is_2nd_word c \<longrightarrow> is_2nd_word c')
      \<and> prefix (read_from c) (read_from c') \<and> prefix (write_from c) (write_from c')
      \<and> prefix (jump_from c) (jump_from c'))"

definition cell_le :: "Cell \<Rightarrow> Cell \<Rightarrow> bool" where
  \<comment> \<open>as \<open>sweep_le\<close>, and a cell without a label may get one\<close>
  "cell_le c c' =
     (data c' = data c \<and> (label c \<noteq> None \<longrightarrow> label c' = label c)
      \<and> (is_2nd_word c \<longrightarrow> is_2nd_word c')
      \<and> prefix (read_from c) (read_from c') \<and> prefix (write_from c) (write_from c')
      \<and> prefix (jump_from c) (jump_from c'))"

definition fresh_image :: "Cell list \<Rightarrow> bool" where
  \<comment> \<open>what \<open>load_excel\<close> leaves: 65536 cells that carry a word and nothing else\<close>
  "fresh_image cells = (length cells = 0x10000 \<and> (\<forall>c \<in> set cells. c = Cell_init (data c)))"

definition words16 :: "Cell list \<Rightarrow> bool" where
  \<comment> \<open>every cell holds a 16-bit unsigned word\<close>
  "words16 cells = (\<forall>c \<in> set cells. 0 \<le> data c \<and> data c \<le> 0xffff)"

definition img1 :: "Cell list" where
  \<comment> \<open>B1 = 2, C1 = 0x1800 (NOP), D1 = 0 (JMP), E1 = 3: an entry vector, a NOP at 2 and a
     jump at 3 to itself\<close>
  "img1 = (replicate 0x10000 (Cell_init 0))[1 := Cell_init 2, 2 := Cell_init 0x1800, 4 := Cell_init 3]"

definition default_args :: args where
  \<comment> \<open>the defaults of \<open>arg_parse\<close>, for the input file \<open>ROM.xlsx\<close>\<close>
  "default_args =
     \<lparr>input = ''ROM.xlsx'', address_style = Hex, include_address = False, include_data = False,
      decode_all = False, no_warnings = False\<rparr>"

definition img1_traced :: "args \<Rightarrow> Cell list" where
  \<comment> \<open>\<open>img1\<close> after \<open>preparation\<close>\<close>
  "img1_traced a = img1
     [2 := \<lparr>data = 0x1800,
            label = Some (''Entrypoint_'' @ str_Address (address_style a) (Address 2)),
            exec_from_prev = None, is_2nd_word = False,
            read_from = [], write_from = [], jump_from = [Address 0]\<rparr>,
      3 := \<lparr>data = 0,
            label = Some (''loc_'' @ tab_pad (address_style a) (Address 3)),
            exec_from_prev = Some (Address 2), is_2nd_word = False,
            read_from = [], write_from = [], jump_from = [Address 3]\<rparr>,
      4 := \<lparr>data = 3, label = None, exec_from_prev = None, is_2nd_word = True,
            read_from = [], write_from = [], jump_from = []\<rparr>]"

definition unlabel :: "Cell \<Rightarrow> Cell" where
  \<comment> \<open>forget the text of a label, keep whether there is one\<close>
  "unlabel c = c\<lparr>label := map_option (\<lambda>_. []) (label c)\<rparr>"

definition erase_labels :: "error + (Cell list \<times> int \<times> int) \<Rightarrow> error + (Cell list \<times> int \<times> int)" where
  "erase_labels r = (case r of Inl e \<Rightarrow> Inl e | Inr (cs, e, l) \<Rightarrow> Inr (map unlabel cs, e, l))"

text \<open>
  \<open>visits l cells pc csk p\<close>: the loop \<open>while pc <= last: pc = one_instruction(pc)\<close>,
  started at \<open>pc\<close> on \<open>cells\<close> with \<open>last = l\<close>, calls \<open>one_instruction(p)\<close>, and the
  cells are \<open>csk\<close> at that call.
\<close>

inductive visits :: "int \<Rightarrow> Cell list \<Rightarrow> int \<Rightarrow> Cell list \<Rightarrow> int \<Rightarrow> bool" for l where
  here: "pc \<le> l \<Longrightarrow> visits l cells pc cells pc"
| later: "pc \<le> l \<Longrightarrow> one_instruction cells pc = Inr (cells', pc') \<Longrightarrow> visits l cells' pc' csk p
          \<Longrightarrow> visits l cells pc csk p"





section \<open>The emitter: \<open>output\<close>\<close>

text \<open>
  \<open>output\<close> writes text to \<open>fout\<close>. The model returns the text written when the function
  returns, or the exception it raises. The header block, written only when the output is
  a named file and holding the current time, is stream plumbing and is left out.
\<close>

definition and_then :: "error + 'a \<Rightarrow> ('a \<Rightarrow> error + 'b) \<Rightarrow> error + 'b" where
  "and_then m f = (case m of Inl e \<Rightarrow> Inl e | Inr x \<Rightarrow> f x)"

definition NL :: string where
  "NL = [CHR 0x0A]"

definition TAB :: string where
  "TAB = [CHR 0x09]"

definition TAB5 :: string where
  "TAB5 = replicate 5 (CHR 0x09)"

definition reg1 :: "int \<Rightarrow> int" where
  "reg1 x = and (drop_bit 4 x) 0xf"

definition reg2 :: "int \<Rightarrow> int" where
  "reg2 x = and x 0xf"

definition ins_set :: "string list" where
  "ins_set = [''JMP'', ''JEQ'', ''JLT'', ''JGE'', ''LOAD'', ''LOAD'', ''STORE'', ''STORE'', ''TRAN'',
              ''ADD'', ''SUB'', ''MULT'', ''DIV'', ''INC'', ''DEC'', ''AND'', ''OR'', ''XOR'',
              ''NOT'', ''ROL'', ''ROR'', ''CMP'', ''CLC'', ''STC'', ''NOP'', ''LOAD'']"

definition ins_set_at :: "int \<Rightarrow> error + string" where
  \<comment> \<open>\<open>ins_set[i]\<close>\<close>
  "ins_set_at i =
     (case py_index (length ins_set) i of None \<Rightarrow> Inl IndexError | Some k \<Rightarrow> Inr (ins_set ! k))"

fun join :: "string \<Rightarrow> string list \<Rightarrow> string" where
  "join sep [] = []"
| "join sep [x] = x"
| "join sep (x # y # ys) = x @ sep @ join sep (y # ys)"

definition repr_Addresses :: "address_style \<Rightarrow> Address list \<Rightarrow> string" where
  \<comment> \<open>a list of \<open>Address\<close> objects inside an f-string: \<open>Address.__repr__\<close> is \<open>__str__\<close>\<close>
  "repr_Addresses style xs = ''['' @ join '', '' (map (str_Address style) xs) @ '']''"

definition vector_warnings :: "args \<Rightarrow> Cell list \<Rightarrow> int \<Rightarrow> error + string" where
  \<comment> \<open>lines 166 to 168, for one \<open>i\<close> of \<open>[0, 1]\<close>\<close>
  "vector_warnings a cells i =
     and_then (cell_at cells i) (\<lambda>c. Inr (
       (if length (jump_from c) \<noteq> 0
        then ''; Warning: address '' @ str_Address (address_style a) (Address i)
             @ '' may be a jump target of '' @ repr_Addresses (address_style a) (jump_from c) @ NL
        else [])
       @ (if length (read_from c) \<noteq> 0
          then ''; Warning: address '' @ str_Address (address_style a) (Address i)
               @ '' may be read by '' @ repr_Addresses (address_style a) (read_from c) @ NL
          else [])
       @ (if length (write_from c) \<noteq> 0
          then ''; Warning: address '' @ str_Address (address_style a) (Address i)
               @ '' may be overwritten by '' @ repr_Addresses (address_style a) (write_from c) @ NL
          else [])))"

definition data_line :: "args \<Rightarrow> Cell list \<Rightarrow> int \<Rightarrow> error + string" where
  \<comment> \<open>lines 171 to 179, the body of \<open>for i in range(2, entry)\<close>\<close>
  "data_line a cells i =
     and_then (cell_at cells i) (\<lambda>c.
     and_then (if decode_all a \<and> opcode (data c) < 26
               then and_then (ins_set_at (opcode (data c))) (\<lambda>m. Inr (TAB @ TAB @ ''; '' @ m))
               else Inr []) (\<lambda>hint. Inr (
       (if length (jump_from c) \<noteq> 0 \<and> \<not> no_warnings a
        then TAB @ ''; Warning: the data below (@'' @ str_Address (address_style a) (Address i)
             @ '') may be a jump target of '' @ repr_Addresses (address_style a) (jump_from c) @ NL
        else [])
       @ TAB @ ''var_'' @ str_Address (address_style a) (Address i) @ '' = $'' @ format_X 4 (data c)
       @ hint @ NL
       @ (if length (read_from c) \<noteq> 0
          then TAB5 @ ''; XREF(R): '' @ repr_Addresses (address_style a) (read_from c) @ NL else [])
       @ (if length (write_from c) \<noteq> 0
          then TAB5 @ ''; XREF(W): '' @ repr_Addresses (address_style a) (write_from c) @ NL else []))))"

function data_lines :: "args \<Rightarrow> Cell list \<Rightarrow> int \<Rightarrow> int \<Rightarrow> error + string" where
  "data_lines a cells i entry =
     (if i < entry then
        (case data_line a cells i of
           Inl e \<Rightarrow> Inl e
         | Inr s \<Rightarrow> (case data_lines a cells (i + 1) entry of Inl e \<Rightarrow> Inl e | Inr r \<Rightarrow> Inr (s @ r)))
      else Inr [])"
  by pat_completeness auto
termination
  by (relation "measure (\<lambda>(a, cells, i, entry). nat (entry - i))") auto

declare data_lines.simps [simp del]

definition operands ::
  "args \<Rightarrow> Cell list \<Rightarrow> int \<Rightarrow> int \<Rightarrow> int \<Rightarrow> int \<Rightarrow> int \<Rightarrow> error + (string \<times> nat)" where
  \<comment> \<open>lines 203 to 228: the mnemonic with its operands, and \<open>unused_bits\<close>\<close>
  "operands a cells entry opcode' reg1' reg2' second =
     (if opcode' < 4 then
        and_then (ins_set_at opcode') (\<lambda>m.
        and_then (cell_at cells second) (\<lambda>t. Inr
          (TAB @ m @ TAB
           @ (case label t of Some lb \<Rightarrow> lb @ TAB
              | None \<Rightarrow> ''@'' @ to_hex (Address second) @ TAB @ TAB),
           if reg1' \<noteq> 0 \<or> reg2' \<noteq> 0 then 2 else 0)))
      else if opcode' = 4 \<or> opcode' = 6 then
        and_then (ins_set_at opcode') (\<lambda>m. Inr
          (TAB @ m @ TAB @ ''R'' @ py_str reg1' @ TAB
           @ (if second < entry then ''var_'' @ tab_pad (address_style a) (Address second)
              else ''@'' @ to_hex (Address second) @ TAB),
           if reg2' \<noteq> 0 then 1 else 0))
      else if opcode' = 5 then
        and_then (ins_set_at opcode') (\<lambda>m. Inr
          (TAB @ m @ TAB @ ''R'' @ py_str reg1' @ TAB @ ''$'' @ format_X 4 second @ TAB,
           if reg2' \<noteq> 0 then 1 else 0))
      else if (7 \<le> opcode' \<and> opcode' \<le> 12) \<or> (15 \<le> opcode' \<and> opcode' \<le> 17)
              \<or> opcode' = 21 \<or> opcode' = 25 then
        and_then (ins_set_at opcode') (\<lambda>m. Inr
          (TAB @ m @ TAB @ ''R'' @ py_str reg1' @ TAB @ ''R'' @ py_str reg2' @ TAB, 0))
      else if opcode' = 13 \<or> opcode' = 14 \<or> opcode' = 18 then
        and_then (ins_set_at opcode') (\<lambda>m. Inr
          (TAB @ m @ TAB @ ''R'' @ py_str reg1' @ TAB @ TAB, if reg2' \<noteq> 0 then 1 else 0))
      else if opcode' = 19 \<or> opcode' = 20 then
        and_then (ins_set_at opcode') (\<lambda>m. Inr
          (TAB @ m @ TAB @ ''R'' @ py_str reg1' @ TAB @ ''#'' @ py_str reg2' @ TAB, 0))
      else if 22 \<le> opcode' \<and> opcode' \<le> 24 then
        and_then (ins_set_at opcode') (\<lambda>m. Inr
          (TAB @ m @ TAB @ TAB @ TAB, if reg1' \<noteq> 0 \<or> reg2' \<noteq> 0 then 2 else 0))
      else Inr (TAB @ ''NOP'' @ TAB @ TAB @ TAB, 0))"

definition operand_warning :: "args \<Rightarrow> int \<Rightarrow> Cell \<Rightarrow> error + string" where
  \<comment> \<open>lines 240 and 241. The f-string holds \<open>ins_set(opcode_)\<close>: it calls the list
     \<open>ins_set\<close>, which raises TypeError before anything is written.\<close>
  "operand_warning a opcode' n =
     (if opcode' < 7 \<and> length (jump_from n) \<noteq> 0 \<and> \<not> no_warnings a then Inl TypeError else Inr [])"

definition instruction_text ::
  "args \<Rightarrow> Cell list \<Rightarrow> int \<Rightarrow> int \<Rightarrow> Cell \<Rightarrow> Cell \<Rightarrow> error + string" where
  \<comment> \<open>lines 190 to 255, one pass of the loop body, with \<open>c = cells[pc]\<close> and
     \<open>n = cells[pc+1]\<close> read in lines 184 to 188\<close>
  "instruction_text a cells entry pc c n =
     and_then (operands a cells entry (opcode (data c)) (reg1 (data c)) (reg2 (data c)) (data n))
       (\<lambda>(ops, unused_bits).
     and_then (operand_warning a (opcode (data c)) n) (\<lambda>warn2.
     and_then (if decode_all a \<and> opcode (data c) < 7 \<and> 0 < opcode (data n) \<and> opcode (data n) < 26
               then and_then (ins_set_at (opcode (data n)))
                      (\<lambda>m. Inr (TAB5 @ ''; -A: operand can be decoded as '' @ m @ NL))
               else Inr []) (\<lambda>hint. Inr (
       (case label c of Some lb \<Rightarrow> NL @ lb @ '':'' @ NL | None \<Rightarrow> [])
       @ (if length (read_from c) \<noteq> 0 \<and> \<not> no_warnings a
          then TAB @ ''; Warning: the code below (@'' @ str_Address (address_style a) (Address pc)
               @ '') may be read by '' @ repr_Addresses (address_style a) (read_from c) @ NL
          else [])
       @ (if length (write_from c) \<noteq> 0 \<and> \<not> no_warnings a
          then TAB @ ''; Warning: the code below (@'' @ str_Address (address_style a) (Address pc)
               @ '') may be overwritten by '' @ repr_Addresses (address_style a) (write_from c) @ NL
          else [])
       @ ops
       @ (if include_address a then TAB @ ''; at '' @ str_Address (address_style a) (Address pc) else [])
       @ (if include_data a
          then TAB @ ''; data: '' @ format_X 4 (data c)
               @ (if opcode (data c) < 7 then '' '' @ format_X 4 (data n) else [])
          else [])
       @ NL
       @ (if opcode (data c) \<ge> 26
          then TAB @ ''; Error: instruction above is not NOP but unknown opcode ''
               @ format_X 4 (data c) @ '';'' @ NL
               @ TAB @ ''  plain data in code section is not allowed by compiler;'' @ NL
               @ TAB @ ''  if it is a junk code that would never be read or executed,'' @ NL
               @ TAB @ ''  please set Cell '' @ to_excel (Address pc)
               @ '' to 6144 (NOP) in Excel manually.'' @ NL @ NL
          else [])
       @ warn2
       @ (if unused_bits \<noteq> 0 \<and> \<not> no_warnings a
          then TAB5 @ ''; Warning: instruction above has unused bits (''
               @ (if unused_bits = 2 then format_X 1 (reg1 (data c)) else [])
               @ format_X 1 (reg2 (data c)) @ '')'' @ NL
          else [])
       @ (if length (jump_from c) \<noteq> 0
          then TAB5 @ ''; XREF(X): '' @ repr_Addresses (address_style a) (jump_from c) @ NL
          else if exec_from_prev c = None \<and> \<not> no_warnings a
          then TAB5 @ ''; Warning: the code above (@'' @ str_Address (address_style a) (Address pc)
               @ '') may not be executed'' @ NL
          else [])
       @ hint))))"

text \<open>
  Lines 182 to 257: \<open>while pc <= last\<close>. Each pass reads \<open>cells[pc]\<close> and \<open>cells[pc+1]\<close>
  first and ends with \<open>pc += 1 if opcode_ >= 7 else 2\<close>.
\<close>

function code_lines :: "args \<Rightarrow> Cell list \<Rightarrow> int \<Rightarrow> int \<Rightarrow> int \<Rightarrow> error + string" where
  "code_lines a cells entry pc last' =
     (if pc \<le> last' then
        (case cell_at cells pc of
           Inl e \<Rightarrow> Inl e
         | Inr c \<Rightarrow>
             (case cell_at cells (pc + 1) of
                Inl e \<Rightarrow> Inl e
              | Inr n \<Rightarrow>
                  (case instruction_text a cells entry pc c n of
                     Inl e \<Rightarrow> Inl e
                   | Inr s \<Rightarrow>
                       (case code_lines a cells entry
                               (pc + (if opcode (data c) \<ge> 7 then 1 else 2)) last' of
                          Inl e \<Rightarrow> Inl e
                        | Inr r \<Rightarrow> Inr (s @ r)))))
      else Inr [])"
  by pat_completeness auto
termination
  by (relation "measure (\<lambda>(a, cells, entry, pc, last'). nat (last' + 1 - pc))") auto

declare code_lines.simps [simp del]

text \<open>
  \<open>emits l cells pc p\<close>: the loop of \<open>output\<close>, started at \<open>pc\<close> with \<open>last = l\<close>,
  runs its body with the program counter at \<open>p\<close>.
\<close>

inductive emits :: "int \<Rightarrow> Cell list \<Rightarrow> int \<Rightarrow> int \<Rightarrow> bool" for l cells where
  emits_here: "pc \<le> l \<Longrightarrow> emits l cells pc pc"
| emits_later: "pc \<le> l \<Longrightarrow> cell_at cells pc = Inr c
          \<Longrightarrow> emits l cells (pc + (if opcode (data c) \<ge> 7 then 1 else 2)) p
          \<Longrightarrow> emits l cells pc p"

definition data_section :: "args \<Rightarrow> Cell list \<Rightarrow> int \<Rightarrow> error + string" where
  \<comment> \<open>lines 162 to 180\<close>
  "data_section a cells entry =
     (if entry \<noteq> 0 then
        and_then (if \<not> no_warnings a
                  then and_then (vector_warnings a cells 0) (\<lambda>w0.
                       and_then (vector_warnings a cells 1) (\<lambda>w1. Inr (w0 @ w1)))
                  else Inr []) (\<lambda>w.
        and_then (data_lines a cells 2 entry) (\<lambda>d.
          Inr (w @ NL @ ''.DATA'' @ NL @ d @ NL @ ''.CODE'' @ NL)))
      else Inr [])"

definition output_listing :: "args \<Rightarrow> Cell list \<Rightarrow> int \<Rightarrow> int \<Rightarrow> error + string" where
  \<comment> \<open>\<open>output()\<close> on the globals \<open>args\<close>, \<open>cells\<close>, \<open>entry\<close> and \<open>last\<close>\<close>
  "output_listing a cells entry last' =
     and_then (data_section a cells entry) (\<lambda>d.
     and_then (code_lines a cells entry entry last') (\<lambda>t. Inr (d @ t)))"

definition img_jeq :: "Cell list" where
  \<comment> \<open>A1 = 0x0100 (JEQ), B1 = 1: a conditional jump to address 1, its own operand word\<close>
  "img_jeq = (replicate 0x10000 (Cell_init 0))[0 := Cell_init 0x0100, 1 := Cell_init 1]"

definition img_jeq_traced :: "Cell list" where
  \<comment> \<open>\<open>img_jeq\<close> after \<open>preparation\<close>\<close>
  "img_jeq_traced = img_jeq
     [1 := (Cell_init 1)\<lparr>is_2nd_word := True, jump_from := [Address 0]\<rparr>,
      2 := (Cell_init 0)\<lparr>exec_from_prev := Some (Address 0)\<rparr>]"

section \<open>Facts about the built-ins\<close>

lemma digits_of_small: "n < b \<or> b < 2 \<Longrightarrow> digits_of b n = [digit_char n]"
  by (simp add: digits_of.simps)

lemma digits_of_big:
  "\<not> (n < b \<or> b < 2) \<Longrightarrow> digits_of b n = digits_of b (n div b) @ [digit_char (n mod b)]"
  by (subst digits_of.simps) simp

lemma digit_char_cases:
  fixes d :: nat
  assumes "d < 16"
  shows "d \<in> {0, 1, 2, 3, 4, 5, 6, 7, 8, 9, 10, 11, 12, 13, 14, 15}"
proof -
  from assms have "d = 0 \<or> d = 1 \<or> d = 2 \<or> d = 3 \<or> d = 4 \<or> d = 5 \<or> d = 6 \<or> d = 7 \<or> d = 8
      \<or> d = 9 \<or> d = 10 \<or> d = 11 \<or> d = 12 \<or> d = 13 \<or> d = 14 \<or> d = 15"
    by arith
  then show ?thesis by blast
qed

lemma digit_val_digit_char: "d < 16 \<Longrightarrow> digit_val (digit_char d) = Some d"
  using digit_char_cases [of d]
  by (auto simp: digit_char_def hexdigits_def digit_val_def py_ord_def)

lemma digit_char_in_hexdigits: "d < 16 \<Longrightarrow> digit_char d \<in> set hexdigits"
  unfolding digit_char_def by (rule nth_mem) (simp add: hexdigits_def)

lemma digit_char_in_decimal: "d < 10 \<Longrightarrow> digit_char d \<in> set ''0123456789''"
proof -
  assume d: "d < 10"
  then have "d < 16" by simp
  from digit_char_cases [OF this] d show ?thesis
    by (auto simp: digit_char_def hexdigits_def)
qed

lemma digits_of_nonempty: "digits_of b n \<noteq> []"
  by (subst digits_of.simps) simp

lemma digits_of_hexdigits: "b \<le> 16 \<Longrightarrow> 2 \<le> b \<Longrightarrow> set (digits_of b n) \<subseteq> set hexdigits"
proof (induction b n rule: digits_of.induct)
  case (1 b n)
  show ?case
  proof (cases "n < b \<or> b < 2")
    case True
    with "1.prems" show ?thesis
      by (simp add: digits_of_small digit_char_in_hexdigits)
  next
    case False
    with "1.prems" have "n mod b < 16"
      by (metis less_le_trans mod_less_divisor not_less zero_less_numeral le_trans)
    with False "1" show ?thesis
      by (simp add: digits_of_big digit_char_in_hexdigits)
  qed
qed

lemma digits_of_decimal: "set (digits_of 10 n) \<subseteq> set ''0123456789''"
proof (induction "10::nat" n rule: digits_of.induct)
  case (1 n)
  show ?case
  proof (cases "n < 10")
    case True
    then show ?thesis
      using digit_char_in_decimal [of n] by (simp add: digits_of_small)
  next
    case False
    have "n mod 10 < 10" by simp
    with False "1" show ?thesis
      using digit_char_in_decimal [of "n mod 10"] by (simp add: digits_of_big)
  qed
qed

lemma digit_char_not_underscore: "d < 16 \<Longrightarrow> digit_char d \<noteq> CHR ''_''"
  using digit_char_cases [of d]
  by (auto simp: digit_char_def hexdigits_def)

lemma int_digits_digit:
  "d < b \<Longrightarrow> d < 16 \<Longrightarrow> int_digits b acc (digit_char d # cs) = int_digits b (acc * b + d) cs"
  by (simp add: digit_val_digit_char digit_char_not_underscore)

lemma int_digits_digits_of:
  "2 \<le> b \<Longrightarrow> b \<le> 16 \<Longrightarrow>
   int_digits b acc (digits_of b n @ ys) = int_digits b (acc * b ^ length (digits_of b n) + n) ys"
proof (induction b n arbitrary: acc ys rule: digits_of.induct)
  case (1 b n)
  show ?case
  proof (cases "n < b \<or> b < 2")
    case True
    with "1.prems" have "n < b" "n < 16" by auto
    then have "int_digits b acc (digit_char n # ys) = int_digits b (acc * b + n) ys"
      by (rule int_digits_digit)
    with True show ?thesis
      by (simp add: digits_of_small del: int_digits.simps)
  next
    case False
    have m1: "n mod b < b" using "1.prems" by simp
    have m2: "n mod b < 16" using m1 "1.prems" by linarith
    note m = m1 m2
    have "int_digits b acc (digits_of b n @ ys) =
          int_digits b acc (digits_of b (n div b) @ (digit_char (n mod b) # ys))"
      using False by (simp add: digits_of_big)
    also have "\<dots> = int_digits b (acc * b ^ length (digits_of b (n div b)) + n div b)
                       (digit_char (n mod b) # ys)"
      using "1.IH" [OF False "1.prems"] .
    also have "\<dots> = int_digits b ((acc * b ^ length (digits_of b (n div b)) + n div b) * b + n mod b) ys"
      using m by (rule int_digits_digit)
    also have "(acc * b ^ length (digits_of b (n div b)) + n div b) * b + n mod b =
               acc * b ^ length (digits_of b n) + n"
      using False by (simp add: digits_of_big algebra_simps)
    finally show ?thesis .
  qed
qed

lemma int_digits_zeros:
  "0 < b \<Longrightarrow> int_digits b 0 (replicate k CHR ''0'' @ ys) = int_digits b 0 ys"
  by (induction k) (auto simp: digit_val_def py_ord_def)

lemma hexdigits_plain:
  "c \<in> set hexdigits \<Longrightarrow>
   \<not> py_isspace c \<and> c \<noteq> CHR ''_'' \<and> c \<noteq> CHR ''-'' \<and> c \<noteq> CHR ''+'' \<and> c \<noteq> CHR ''x'' \<and> c \<noteq> CHR ''X''"
  by (auto simp: hexdigits_def py_isspace_def py_ord_def)

lemma decimal_not_alpha: "c \<in> set ''0123456789'' \<Longrightarrow> \<not> py_isalpha c"
  by (auto simp: py_isalpha_def py_ord_def)

lemma strip_plain:
  assumes "s \<noteq> []" "\<not> py_isspace (hd s)" "\<not> py_isspace (last s)"
  shows "strip s = s"
proof -
  from assms have a: "dropWhile py_isspace s = s"
    by (cases s) auto
  from assms have "dropWhile py_isspace (rev s) = rev s"
    by (cases "rev s") (auto simp: last_rev [symmetric] hd_rev)
  with a show ?thesis by (simp add: strip_def)
qed

lemma split_sign_plain: "s \<noteq> [] \<Longrightarrow> hd s \<noteq> CHR ''-'' \<Longrightarrow> hd s \<noteq> CHR ''+'' \<Longrightarrow> split_sign s = (False, s)"
  by (cases s) (auto simp: split_sign_def)

lemma skip_prefix_plain: "set s \<subseteq> set hexdigits \<Longrightarrow> skip_prefix b s = s"
  by (auto simp: skip_prefix_def dest: hexdigits_plain split: list.splits)

lemma py_int_plain:
  assumes "set s \<subseteq> set hexdigits" "s \<noteq> []"
  shows "py_int b s = (case int_digits b 0 s of None \<Rightarrow> Inl ValueError | Some n \<Rightarrow> Inr (int n))"
proof -
  from assms have h: "hd s \<in> set hexdigits" "last s \<in> set hexdigits"
    by auto
  have 1: "strip s = s"
    using assms h by (intro strip_plain) (auto dest: hexdigits_plain)
  have 2: "split_sign s = (False, s)"
    using assms h by (intro split_sign_plain) (auto dest: hexdigits_plain)
  have 3: "skip_prefix b s = s"
    using assms(1) by (rule skip_prefix_plain)
  obtain c cs where s: "s = c # cs" using assms by (cases s) auto
  with h have "c \<noteq> CHR ''_''" by (auto dest: hexdigits_plain)
  then show ?thesis
    apply (simp only: py_int_def 1 2 Let_def prod.case 3)
    apply (simp add: s split: option.splits)
    done
qed

lemma py_int_py_str: "0 \<le> a \<Longrightarrow> py_int 10 (py_str a) = Inr a"
proof -
  assume a: "0 \<le> a"
  have sub: "set (digits_of 10 (nat a)) \<subseteq> set hexdigits"
    by (rule digits_of_hexdigits) simp_all
  have "int_digits 10 0 (digits_of 10 (nat a) @ []) = Some (nat a)"
    by (subst int_digits_digits_of) simp_all
  then show ?thesis
    using a by (simp add: py_str_def py_int_plain [OF sub digits_of_nonempty])
qed

lemma py_int_format_X: "0 \<le> a \<Longrightarrow> py_int 16 (format_X w a) = Inr a"
proof -
  assume a: "0 \<le> a"
  define k where "k = w - length (digits_of 16 (nat a))"
  have f: "format_X w a = replicate k CHR ''0'' @ digits_of 16 (nat a)"
    using a by (simp add: format_X_def k_def Let_def)
  have sub: "set (replicate k CHR ''0'' @ digits_of 16 (nat a)) \<subseteq> set hexdigits"
    using digits_of_hexdigits [of 16 "nat a"] by (auto simp: hexdigits_def)
  have ne: "replicate k CHR ''0'' @ digits_of 16 (nat a) \<noteq> []"
    by (simp add: digits_of_nonempty)
  have "int_digits 16 0 (replicate k CHR ''0'' @ digits_of 16 (nat a) @ []) = Some (nat a)"
    by (subst int_digits_zeros, simp, subst int_digits_digits_of) simp_all
  then show ?thesis
    using a by (simp add: f py_int_plain [OF sub ne])
qed


section \<open>The address codec\<close>

lemma py_str_decimal: "0 \<le> a \<Longrightarrow> set (py_str a) \<subseteq> set ''0123456789''"
proof -
  assume "0 \<le> a"
  then have "py_str a = digits_of 10 (nat a)" by (simp add: py_str_def)
  then show ?thesis by (simp only: digits_of_decimal)
qed

lemma py_str_nonempty: "py_str a \<noteq> []"
  by (simp add: py_str_def digits_of_nonempty)

lemma py_str_inject: "0 \<le> a \<Longrightarrow> 0 \<le> b \<Longrightarrow> py_str a = py_str b \<Longrightarrow> a = b"
  by (metis py_int_py_str Inr_inject)

lemma py_ord_py_chr: "0 \<le> n \<Longrightarrow> n < 256 \<Longrightarrow> py_ord (py_chr n) = n"
  by (simp add: py_ord_def py_chr_def)

lemma from_excel_to_excel:
  assumes "0 \<le> a"
  shows "from_excel (to_excel (Address a)) = Inr (Address a)"
proof -
  define row where "row = a div 256"
  define col where "col = a mod 256"
  have col: "0 \<le> col" "col < 256" by (simp_all add: col_def)
  have row: "0 \<le> row + 1" using assms by (simp add: row_def)
  have a: "a = row * 256 + col" by (simp add: row_def col_def)
  obtain d ds where ds: "py_str (row + 1) = d # ds"
    using py_str_nonempty [of "row + 1"] by (cases "py_str (row + 1)") auto
  have "d \<in> set ''0123456789''"
    using py_str_decimal [OF row] ds by auto
  then have d: "\<not> py_isalpha d" by (rule decimal_not_alpha)
  show ?thesis
  proof (cases "col \<ge> 26")
    case True
    have h: "0 \<le> col div 26 + 65" "col div 26 + 65 < 256" "0 \<le> col mod 26 + 65" "col mod 26 + 65 < 256"
      using col by auto
    have l: "65 \<le> col mod 26 + 65" "col mod 26 + 65 \<le> 90" "65 \<le> col div 26 + 65" "col div 26 + 65 \<le> 90"
      using col by auto
    have e: "to_excel (Address a) = py_chr (col div 26 + 65) # py_chr (col mod 26 + 65) # py_str (row + 1)"
      using True by (simp add: to_excel_def to_row_col_def row_def col_def)
    have u1: "py_ord (py_upper (py_chr (col div 26 + 65))) = col div 26 + 65"
      using l h by (simp add: py_upper_def py_ord_py_chr)
    have u2: "py_ord (py_upper (py_chr (col mod 26 + 65))) = col mod 26 + 65"
      using l h by (simp add: py_upper_def py_ord_py_chr)
    have al: "py_isalpha (py_chr (col mod 26 + 65))"
      using l h by (simp add: py_isalpha_def py_ord_py_chr)
    have "from_excel (py_chr (col div 26 + 65) # py_chr (col mod 26 + 65) # py_str (row + 1)) =
        Inr (Address (row * 256 + col))"
      using row by (simp add: from_excel_def al u1 u2 py_int_py_str from_row_col_def)
    then show ?thesis
      by (simp only: e a [symmetric])
  next
    case False
    have h: "0 \<le> col + 65" "col + 65 < 256" "col + 65 \<le> 90"
      using col False by auto
    have e: "to_excel (Address a) = py_chr (col + 65) # d # ds"
      using False ds by (simp add: to_excel_def to_row_col_def row_def col_def)
    have u1: "py_ord (py_upper (py_chr (col + 65))) = col + 65"
      using h by (simp add: py_upper_def py_ord_py_chr)
    have "py_int 10 (d # ds) = Inr (row + 1)"
      using py_int_py_str [OF row] by (simp add: ds)
    then have "from_excel (py_chr (col + 65) # d # ds) = Inr (Address (row * 256 + col))"
      by (simp add: from_excel_def d u1 from_row_col_def)
    then show ?thesis
      by (simp only: e a [symmetric])
  qed
qed

lemma underscore_split:
  assumes "CHR ''_'' \<notin> set xs" "CHR ''_'' \<notin> set xs'" "xs @ CHR ''_'' # ys = xs' @ CHR ''_'' # ys'"
  shows "xs = xs' \<and> ys = ys'"
proof -
  have "takeWhile (\<lambda>c. c \<noteq> CHR ''_'') (xs @ CHR ''_'' # ys) = xs"
    using assms(1) by (subst takeWhile_append2) auto
  moreover have "takeWhile (\<lambda>c. c \<noteq> CHR ''_'') (xs' @ CHR ''_'' # ys') = xs'"
    using assms(2) by (subst takeWhile_append2) auto
  ultimately have "xs = xs'" using assms(3) by simp
  with assms(3) show ?thesis by simp
qed

lemma str_Address_Rowcol_inject:
  assumes "0 \<le> a" "0 \<le> b" "str_Address Rowcol (Address a) = str_Address Rowcol (Address b)"
  shows "a = b"
proof -
  have n: "\<And>x. 0 \<le> x \<Longrightarrow> CHR ''_'' \<notin> set (py_str x)"
    using py_str_decimal by fastforce
  have ra: "0 \<le> a div 256" "0 \<le> a mod 256" "0 \<le> b div 256" "0 \<le> b mod 256"
    using assms by (simp_all add: pos_imp_zdiv_nonneg_iff)
  from assms(3) have "py_str (a div 256) @ CHR ''_'' # py_str (a mod 256) =
      py_str (b div 256) @ CHR ''_'' # py_str (b mod 256)"
    by (simp add: str_Address_def to_row_col_def)
  from underscore_split [OF n n this] ra
  have e: "py_str (a div 256) = py_str (b div 256)" "py_str (a mod 256) = py_str (b mod 256)"
    by simp_all
  have "a div 256 = b div 256"
    using ra(1) ra(3) e(1) by (rule py_str_inject)
  moreover have "a mod 256 = b mod 256"
    using ra(2) ra(4) e(2) by (rule py_str_inject)
  ultimately show ?thesis
    by (metis div_mult_mod_eq)
qed

text \<open>
  Claim C3. For every address \<open>a\<close> in \<open>[0, 65535]\<close>, decoding the rendering of \<open>a\<close> gives
  \<open>a\<close> again, in each of the four display styles. The class pairs \<open>to_hex\<close> with
  \<open>from_hex\<close>, \<open>to_row_col\<close> with \<open>from_row_col\<close> and \<open>to_excel\<close> with \<open>from_excel\<close>;
  the decimal rendering is \<open>str\<close> of the integer and is read back by \<open>int\<close>. The
  \<open>row_col\<close> text \<open>str(row) + '_' + str(col)\<close>, which has no decoder in the class, is
  injective on the address range.
\<close>

theorem address_codec_round_trip:
  assumes "0 \<le> a" and "a \<le> 65535"
  shows "py_int 10 (str_Address Deci (Address a)) = Inr a
       \<and> from_hex (str_Address Hex (Address a)) = Inr (Address a)
       \<and> (case to_row_col (Address a) of (row, col) \<Rightarrow> from_row_col row col) = Address a
       \<and> from_excel (str_Address Excel (Address a)) = Inr (Address a)
       \<and> inj_on (\<lambda>a. str_Address Rowcol (Address a)) {0..65535}"
proof -
  have "inj_on (\<lambda>a. str_Address Rowcol (Address a)) {0..65535}"
    by (rule inj_onI) (auto dest: str_Address_Rowcol_inject)
  with assms show ?thesis
    by (simp add: str_Address_def py_int_py_str from_hex_def to_hex_def py_int_format_X
        to_row_col_def from_row_col_def from_excel_to_excel)
qed

lemma to_hex_283: "to_hex (Address 283) = ''011B''"
  by (simp add: to_hex_def format_X_def Let_def digits_of_small digits_of_big digit_char_def hexdigits_def)

lemma to_excel_283: "to_excel (Address 283) = ''BB2''"
  by (simp add: to_excel_def to_row_col_def py_str_def digits_of_small digit_char_def hexdigits_def
      py_chr_def char_of_eq_iff)

theorem address_codec_round_trip_witness:
  "from_hex ''011B'' = Inr (Address 283) \<and> from_excel ''BB2'' = Inr (Address 283)"
  using address_codec_round_trip [of 283]
  by (simp add: str_Address_def to_hex_283 to_excel_283)

section \<open>Malformed spreadsheet-style strings\<close>












section \<open>Cell access\<close>

lemma py_index_less: "py_index n i = Some k \<Longrightarrow> k < n"
  by (auto simp: py_index_def split: if_splits)

lemma cell_at_Inr: "0 \<le> i \<Longrightarrow> i < int (length cs) \<Longrightarrow> cell_at cs i = Inr (cs ! nat i)"
  by (simp add: cell_at_def py_index_def)

lemma cell_update_Inr:
  "0 \<le> i \<Longrightarrow> i < int (length cs) \<Longrightarrow> cell_update cs i f = Inr (cs[nat i := f (cs ! nat i)])"
  by (simp add: cell_update_def py_index_def)

lemma cell_at_InrD:
  "cell_at cs i = Inr c \<Longrightarrow> \<exists>k < length cs. py_index (length cs) i = Some k \<and> c = cs ! k"
  by (auto simp: cell_at_def dest: py_index_less split: option.splits)

lemma cell_update_InrD:
  "cell_update cs i f = Inr cs' \<Longrightarrow>
   \<exists>k < length cs. py_index (length cs) i = Some k \<and> cs' = cs[k := f (cs ! k)]"
  by (auto simp: cell_update_def dest: py_index_less split: option.splits)

lemma cell_update_length: "cell_update cs i f = Inr cs' \<Longrightarrow> length cs' = length cs"
  by (auto dest: cell_update_InrD)

lemma sweep_le_refl: "sweep_le c c"
  by (simp add: sweep_le_def)

lemma sweep_le_trans: "sweep_le a b \<Longrightarrow> sweep_le b c \<Longrightarrow> sweep_le a c"
  by (auto simp: sweep_le_def)

lemma sweeps_refl: "list_all2 sweep_le cs cs"
  by (simp add: list_all2_refl sweep_le_refl)

lemma sweeps_trans:
  assumes "list_all2 sweep_le as bs" and "list_all2 sweep_le bs cs"
  shows "list_all2 sweep_le as cs"
  using sweep_le_trans assms by (rule list_all2_trans)

lemma cell_update_sweeps:
  assumes "cell_update cs i f = Inr cs'" and "\<And>c. sweep_le c (f c)"
  shows "list_all2 sweep_le cs cs'"
proof -
  from assms(1) obtain k where k: "k < length cs" "cs' = cs[k := f (cs ! k)]"
    by (auto dest: cell_update_InrD)
  have "list_all2 sweep_le (cs[k := cs ! k]) (cs[k := f (cs ! k)])"
    by (rule list_all2_update_cong) (simp_all add: sweeps_refl assms(2))
  with k show ?thesis by simp
qed

lemma record_xref_sweeps: "record_xref cs pc = Inr cs' \<Longrightarrow> list_all2 sweep_le cs cs'"
  by (auto simp: record_xref_def sweep_le_def sweeps_refl
      split: sum.splits if_splits intro!: cell_update_sweeps)

lemma advance_sweeps: "advance cs pc = Inr (cs', pc') \<Longrightarrow> list_all2 sweep_le cs cs'"
  by (auto simp: advance_def sweep_le_def sweeps_refl
      split: sum.splits if_splits intro!: cell_update_sweeps)

lemma one_instruction_sweeps:
  assumes "one_instruction cs pc = Inr (cs', pc')"
  shows "list_all2 sweep_le cs cs'"
proof -
  from assms obtain cs1 cs2 where
    1: "record_xref cs pc = Inr cs1" and 2: "advance cs1 pc = Inr (cs2, pc')" and
    3: "cs' = cs2 \<or> cell_update cs2 pc' (\<lambda>t. t\<lparr>exec_from_prev := Some (Address pc)\<rparr>) = Inr cs'"
    by (auto simp: one_instruction_def split: sum.splits if_splits)
  have "list_all2 sweep_le cs2 cs'"
    using 3
  proof
    assume "cs' = cs2"
    then show ?thesis by (simp add: sweeps_refl)
  next
    assume "cell_update cs2 pc' (\<lambda>t. t\<lparr>exec_from_prev := Some (Address pc)\<rparr>) = Inr cs'"
    then show ?thesis by (rule cell_update_sweeps) (simp add: sweep_le_def)
  qed
  with record_xref_sweeps [OF 1] advance_sweeps [OF 2] show ?thesis
    by (blast intro: sweeps_trans)
qed

lemma main_sweep_sweeps: "main_sweep cs pc l = Inr cs' \<Longrightarrow> list_all2 sweep_le cs cs'"
proof (induction cs pc l rule: main_sweep.induct)
  case (1 cells pc l)
  show ?case
  proof (cases "pc \<le> l")
    case True
    with "1.prems" obtain c1 p1 where s: "one_instruction cells pc = Inr (c1, p1)"
      and r: "main_sweep c1 p1 l = Inr cs'"
      by (subst (asm) main_sweep.simps) (auto split: sum.splits)
    from "1.IH" [OF True s refl r] one_instruction_sweeps [OF s] show ?thesis
      by (blast intro: sweeps_trans)
  next
    case False
    with "1.prems" show ?thesis
      by (subst (asm) main_sweep.simps) (simp add: sweeps_refl)
  qed
qed

lemma pre_entry_sweeps: "pre_entry cs x e = Inr cs' \<Longrightarrow> list_all2 sweep_le cs cs'"
proof (induction cs x e rule: pre_entry.induct)
  case (1 cells x e)
  show ?case
  proof (cases "x < e")
    case True
    with "1.prems" obtain c where c: "cell_at cells x = Inr c"
      by (subst (asm) pre_entry.simps) (auto split: sum.splits)
    show ?thesis
    proof (cases "length (jump_from c) = 0 \<and> exec_from_prev c = None")
      case skip: True
      with "1.prems" True c have "pre_entry cells (x + 1) e = Inr cs'"
        by (subst (asm) pre_entry.simps) simp
      from "1.IH"(1) [OF True c skip this] show ?thesis .
    next
      case go: False
      with "1.prems" True c obtain c1 p1 where s: "one_instruction cells x = Inr (c1, p1)"
        and r: "pre_entry c1 p1 e = Inr cs'"
        by (subst (asm) pre_entry.simps) (auto split: sum.splits)
      from "1.IH"(2) [OF True c go s refl r] one_instruction_sweeps [OF s] show ?thesis
        by (blast intro: sweeps_trans)
    qed
  next
    case False
    with "1.prems" show ?thesis
      by (subst (asm) pre_entry.simps) (simp add: sweeps_refl)
  qed
qed

lemma sweeps_length: "list_all2 sweep_le cs cs' \<Longrightarrow> length cs' = length cs"
  by (simp add: list_all2_lengthD)

lemma sweeps_nth: "list_all2 sweep_le cs cs' \<Longrightarrow> k < length cs \<Longrightarrow> sweep_le (cs ! k) (cs' ! k)"
  by (simp add: list_all2_nthD)

lemma sweeps_data: "list_all2 sweep_le cs cs' \<Longrightarrow> map data cs' = map data cs"
  by (rule nth_equalityI) (auto simp: list_all2_lengthD dest: list_all2_nthD2 simp: sweep_le_def)

section \<open>The last instruction\<close>

lemma find_last_data:
  "map data cs = map data cs' \<Longrightarrow> find_last cs n = find_last cs' n"
proof (induction cs n rule: find_last.induct)
  case (1 cells n)
  from "1.prems" have len: "length cells = length cs'"
    by (metis length_map)
  have at: "\<And>k. k < length cells \<Longrightarrow> data (cells ! k) = data (cs' ! k)"
    using "1.prems" by (metis len nth_map)
  show ?case
  proof (cases "py_index (length cells) n")
    case None
    then show ?thesis
      by (subst find_last.simps, subst (2) find_last.simps) (simp add: cell_at_def len [symmetric])
  next
    case (Some k)
    then have k: "k < length cells" by (rule py_index_less)
    have c: "cell_at cells n = Inr (cells ! k)" by (simp add: cell_at_def Some)
    show ?thesis
    proof (cases "data (cells ! k) = 0")
      case True
      from "1.IH" [OF c True "1.prems"] True at [OF k] Some show ?thesis
        by (subst find_last.simps, subst (2) find_last.simps) (simp add: cell_at_def len [symmetric])
    next
      case False
      with at [OF k] Some show ?thesis
        by (subst find_last.simps, subst (2) find_last.simps) (simp add: cell_at_def len [symmetric])
    qed
  qed
qed

lemma find_last_down:
  "0 \<le> h \<Longrightarrow> h \<le> n \<Longrightarrow> n < int (length cs) \<Longrightarrow> data (cs ! nat h) \<noteq> 0 \<Longrightarrow>
   (\<forall>k. nat h < k \<and> k \<le> nat n \<longrightarrow> data (cs ! k) = 0) \<Longrightarrow> find_last cs n = Inr h"
proof (induction cs n rule: find_last.induct)
  case (1 cells n)
  have c: "cell_at cells n = Inr (cells ! nat n)"
    using "1.prems" by (simp add: cell_at_Inr)
  show ?case
  proof (cases "n = h")
    case True
    with "1.prems" c show ?thesis
      by (subst find_last.simps) simp
  next
    case False
    with "1.prems" have z: "data (cells ! nat n) = 0" by auto
    have "find_last cells (n - 1) = Inr h"
      using "1.prems" False by (intro "1.IH" [OF c z]) auto
    with c z show ?thesis
      by (subst find_last.simps) simp
  qed
qed

lemma get_entry_data: "get_entry a cs = Inr (cs', e) \<Longrightarrow> map data cs' = map data cs"
  by (auto simp: get_entry_def map_update split: sum.splits if_splits
      dest!: cell_update_InrD intro!: nth_equalityI simp: nth_list_update)

text \<open>
  Claim C8. When \<open>h\<close> is the highest address of the 65536-word image that holds a nonzero
  word, the downward scan from 65535 stops at \<open>h\<close>, and \<open>h\<close> is the \<open>last\<close> that
  \<open>preparation\<close> leaves.
\<close>

theorem last_is_highest_nonzero:
  assumes "length cells = 0x10000" and "0 \<le> h" and "h \<le> 0xffff"
    and "data (cells ! nat h) \<noteq> 0"
    and "\<forall>k. nat h < k \<and> k \<le> 0xffff \<longrightarrow> data (cells ! k) = 0"
  shows "find_last cells 0xffff = Inr h
       \<and> (\<forall>a cs e l. preparation a cells = Inr (cs, e, l) \<longrightarrow> l = h)"
proof -
  have f: "find_last cells 0xffff = Inr h"
    using assms by (intro find_last_down) auto
  have "l = h" if "preparation a cells = Inr (cs, e, l)" for a cs e l
  proof -
    from that obtain cs1 where g: "get_entry a cells = Inr (cs1, e)"
      and l: "find_last cs1 0xffff = Inr l"
      by (auto simp: preparation_def split: sum.splits)
    from find_last_data [OF get_entry_data [OF g]] l f show ?thesis by simp
  qed
  with f show ?thesis by blast
qed

section \<open>The example image\<close>

lemma img1_length: "length img1 = 65536"
  by (simp add: img1_def)

lemma img1_nth:
  "img1 ! 0 = Cell_init 0" "img1 ! 1 = Cell_init 2" "img1 ! 2 = Cell_init 0x1800"
  "img1 ! 3 = Cell_init 0" "img1 ! 4 = Cell_init 3"
  by (simp_all add: img1_def)

lemma img1_above: "4 < k \<Longrightarrow> k \<le> 65535 \<Longrightarrow> img1 ! k = Cell_init 0"
  by (simp add: img1_def)

lemma img1_cells: "k < 65536 \<Longrightarrow> img1 ! k = Cell_init (data (img1 ! k)) \<and> 0 \<le> data (img1 ! k) \<and> data (img1 ! k) \<le> 0xffff"
  by (simp add: img1_def nth_list_update Cell_init_def)

lemma img1_fresh: "fresh_image img1"
  unfolding fresh_image_def
  by (auto simp: in_set_conv_nth img1_length dest: img1_cells)

lemma img1_words16: "words16 img1"
  unfolding words16_def
  by (auto simp: in_set_conv_nth img1_length dest: img1_cells)

lemma load_excel_img1: "load_excel [(1, 2, 2), (1, 3, 0x1800), (1, 5, 3)] = Inr img1"
  by (simp add: load_excel_def cell_update_Inr img1_def Cell_init_def)

theorem last_is_highest_nonzero_witness: "find_last img1 0xffff = Inr 4"
  using last_is_highest_nonzero [of img1 4]
  by (simp add: img1_length img1_nth img1_above Cell_init_def)

section \<open>The entry point\<close>

lemma py_index_nonneg: "0 \<le> i \<Longrightarrow> py_index n i = Some k \<Longrightarrow> k = nat i \<and> i < int n"
  by (auto simp: py_index_def split: if_splits)

lemma get_entry_indirect:
  assumes "length cs = 0x10000" and "data (cs ! 0) = 0"
    and "0 \<le> data (cs ! 1)" and "data (cs ! 1) \<le> 0xffff"
  shows "get_entry a cs =
     Inr (cs[nat (data (cs ! 1)) := (cs ! nat (data (cs ! 1)))
            \<lparr>label := Some (''Entrypoint_'' @ str_Address (address_style a) (Address (data (cs ! 1)))),
             jump_from := jump_from (cs ! nat (data (cs ! 1))) @ [Address 0]\<rparr>],
          data (cs ! 1))"
  using assms by (simp add: get_entry_def cell_at_Inr cell_update_Inr)

lemma get_entry_direct: "0 < length cs \<Longrightarrow> data (cs ! 0) \<noteq> 0 \<Longrightarrow> get_entry a cs = Inr (cs, 0)"
  by (simp add: get_entry_def cell_at_Inr)

lemma preparation_phases:
  assumes "preparation a cs = Inr (cs4, e, l)"
  shows "\<exists>cs1 cs2 cs3. get_entry a cs = Inr (cs1, e) \<and> find_last cs1 0xffff = Inr l
     \<and> main_sweep cs1 e l = Inr cs2 \<and> pre_entry cs2 0 e = Inr cs3 \<and> set_label a cs3 e l = Inr cs4"
  using assms by (auto simp: preparation_def split: sum.splits)

lemma set_label_nth:
  "set_label a cs pc l = Inr cs' \<Longrightarrow> 0 \<le> pc \<Longrightarrow>
   length cs' = length cs \<and>
   (\<forall>k < length cs. cs' ! k =
      (if pc \<le> int k \<and> int k \<le> l \<and> \<not> is_2nd_word (cs ! k) \<and> label (cs ! k) = None
          \<and> jump_from (cs ! k) \<noteq> []
       then (cs ! k)\<lparr>label := Some (''loc_'' @ tab_pad (address_style a) (Address (int k)))\<rparr>
       else cs ! k))"
proof (induction a cs pc l arbitrary: cs' rule: set_label.induct)
  case (1 a cells pc l)
  show ?case
  proof (cases "pc \<le> l")
    case False
    with "1.prems" have "cs' = cells"
      by (subst (asm) set_label.simps) simp
    with False show ?thesis by auto
  next
    case True
    with "1.prems" obtain c where c: "cell_at cells pc = Inr c"
      by (subst (asm) set_label.simps) (auto split: sum.splits)
    with "1.prems"(2) have pc: "pc < int (length cells)" and c': "c = cells ! nat pc"
      by (auto dest!: cell_at_InrD dest: py_index_nonneg)
    show ?thesis
    proof (cases "\<not> is_2nd_word c \<and> label c = None \<and> length (jump_from c) \<noteq> 0")
      case yes: True
      define cs1 where "cs1 = cells[nat pc :=
        (cells ! nat pc)\<lparr>label := Some (''loc_'' @ tab_pad (address_style a) (Address pc))\<rparr>]"
      have u: "cell_update cells pc
          (\<lambda>t. t\<lparr>label := Some (''loc_'' @ tab_pad (address_style a) (Address pc))\<rparr>) = Inr cs1"
        using pc "1.prems"(2) by (simp add: cell_update_Inr cs1_def)
      with "1.prems"(1) True c yes have r: "set_label a cs1 (pc + 1) l = Inr cs'"
        by (subst (asm) set_label.simps) simp
      from "1.IH"(1) [OF True c yes u r] "1.prems"(2)
      have ih: "length cs' = length cs1"
        "\<And>k. k < length cs1 \<Longrightarrow> cs' ! k =
          (if pc + 1 \<le> int k \<and> int k \<le> l \<and> \<not> is_2nd_word (cs1 ! k) \<and> label (cs1 ! k) = None
              \<and> jump_from (cs1 ! k) \<noteq> []
           then (cs1 ! k)\<lparr>label := Some (''loc_'' @ tab_pad (address_style a) (Address (int k)))\<rparr>
           else cs1 ! k)"
        by auto
      have len: "length cs1 = length cells" by (simp add: cs1_def)
      show ?thesis
      proof (intro conjI allI impI)
        show "length cs' = length cells" using ih(1) len by simp
      next
        fix k assume k: "k < length cells"
        show "cs' ! k =
          (if pc \<le> int k \<and> int k \<le> l \<and> \<not> is_2nd_word (cells ! k) \<and> label (cells ! k) = None
              \<and> jump_from (cells ! k) \<noteq> []
           then (cells ! k)\<lparr>label := Some (''loc_'' @ tab_pad (address_style a) (Address (int k)))\<rparr>
           else cells ! k)"
        proof (cases "k = nat pc")
          case True
          with k yes c' "1.prems"(2) \<open>pc \<le> l\<close> show ?thesis
            by (simp add: ih(2) len cs1_def)
        next
          case False
          with "1.prems"(2) have "(pc + 1 \<le> int k) = (pc \<le> int k)" by auto
          moreover have "cs1 ! k = cells ! k" using False by (simp add: cs1_def)
          ultimately show ?thesis using k
            by (simp add: ih(2) len)
        qed
      qed
    next
      case no: False
      with "1.prems"(1) True c have r: "set_label a cells (pc + 1) l = Inr cs'"
        by (subst (asm) set_label.simps) auto
      from "1.IH"(2) [OF True c no r] "1.prems"(2)
      have ih: "length cs' = length cells"
        "\<And>k. k < length cells \<Longrightarrow> cs' ! k =
          (if pc + 1 \<le> int k \<and> int k \<le> l \<and> \<not> is_2nd_word (cells ! k) \<and> label (cells ! k) = None
              \<and> jump_from (cells ! k) \<noteq> []
           then (cells ! k)\<lparr>label := Some (''loc_'' @ tab_pad (address_style a) (Address (int k)))\<rparr>
           else cells ! k)"
        by auto
      show ?thesis
      proof (intro conjI allI impI)
        show "length cs' = length cells" by (rule ih(1))
      next
        fix k assume k: "k < length cells"
        show "cs' ! k =
          (if pc \<le> int k \<and> int k \<le> l \<and> \<not> is_2nd_word (cells ! k) \<and> label (cells ! k) = None
              \<and> jump_from (cells ! k) \<noteq> []
           then (cells ! k)\<lparr>label := Some (''loc_'' @ tab_pad (address_style a) (Address (int k)))\<rparr>
           else cells ! k)"
        proof (cases "k = nat pc")
          case True
          with k no c' "1.prems"(2) show ?thesis
            by (auto simp: ih(2))
        next
          case False
          with "1.prems"(2) have "(pc + 1 \<le> int k) = (pc \<le> int k)" by auto
          with k show ?thesis
            by (simp add: ih(2))
        qed
      qed
    qed
  qed
qed

lemma set_label_keeps:
  assumes "set_label a cs pc l = Inr cs'" and "0 \<le> pc" and "k < length cs"
  shows "data (cs' ! k) = data (cs ! k)" and "jump_from (cs' ! k) = jump_from (cs ! k)"
    and "read_from (cs' ! k) = read_from (cs ! k)" and "write_from (cs' ! k) = write_from (cs ! k)"
    and "is_2nd_word (cs' ! k) = is_2nd_word (cs ! k)"
    and "exec_from_prev (cs' ! k) = exec_from_prev (cs ! k)"
    and "label (cs ! k) \<noteq> None \<Longrightarrow> label (cs' ! k) = label (cs ! k)"
  using set_label_nth [OF assms(1) assms(2)] assms(3) by auto

lemma entry_label_kept:
  assumes p: "preparation a cs = Inr (cs4, e, l)"
    and len: "length cs = 0x10000" and z: "data (cs ! 0) = 0"
    and lo: "0 \<le> data (cs ! 1)" and hi: "data (cs ! 1) \<le> 0xffff"
  shows "e = data (cs ! 1)"
    and "label (cs4 ! nat e) = Some (''Entrypoint_'' @ str_Address (address_style a) (Address e))"
    and "prefix (jump_from (cs ! nat e) @ [Address 0]) (jump_from (cs4 ! nat e))"
proof -
  from preparation_phases [OF p] obtain cs1 cs2 cs3 where
    g: "get_entry a cs = Inr (cs1, e)" and m: "main_sweep cs1 e l = Inr cs2"
    and q: "pre_entry cs2 0 e = Inr cs3" and s: "set_label a cs3 e l = Inr cs4"
    by blast
  from g get_entry_indirect [OF len z lo hi, of a] show e: "e = data (cs ! 1)"
    by simp
  define k where "k = nat e"
  have k: "k < length cs" using lo hi len e by (simp add: k_def)
  from g get_entry_indirect [OF len z lo hi, of a] e k
  have l1: "label (cs1 ! k) = Some (''Entrypoint_'' @ str_Address (address_style a) (Address e))"
    and j1: "jump_from (cs1 ! k) = jump_from (cs ! k) @ [Address 0]"
    and len1: "length cs1 = length cs"
    by (auto simp: k_def)
  have sw: "list_all2 sweep_le cs1 cs3"
    using main_sweep_sweeps [OF m] pre_entry_sweeps [OF q] by (rule sweeps_trans)
  then have len3: "length cs3 = length cs1" by (rule sweeps_length)
  from sweeps_nth [OF sw] k len1 have le: "sweep_le (cs1 ! k) (cs3 ! k)" by simp
  have e0: "0 \<le> e" using e lo by simp
  have k3: "k < length cs3" using k len1 len3 by simp
  from le l1 have "label (cs3 ! k) \<noteq> None" by (simp add: sweep_le_def)
  from set_label_keeps(7) [OF s e0 k3 this] le l1
  show "label (cs4 ! nat e) = Some (''Entrypoint_'' @ str_Address (address_style a) (Address e))"
    by (simp add: sweep_le_def k_def)
  from set_label_keeps(2) [OF s e0 k3] le j1
  show "prefix (jump_from (cs ! nat e) @ [Address 0]) (jump_from (cs4 ! nat e))"
    by (simp add: sweep_le_def k_def)
qed

text \<open>
  Claim C7. With \<open>cells[0].data == 0\<close> the entry is \<open>cells[1].data\<close>; the cell there gets
  the label \<open>Entrypoint_<addr>\<close> and the jump origin \<open>Address(0)\<close>, and both are still
  there when \<open>preparation\<close> returns. Otherwise the entry is 0 and the entry step leaves
  every cell as it was.
\<close>

theorem entry_resolution:
  assumes "length cells = 0x10000" and "0 \<le> data (cells ! 1)" and "data (cells ! 1) \<le> 0xffff"
  shows "(data (cells ! 0) = 0 \<longrightarrow>
            (\<exists>cells1. get_entry a cells = Inr (cells1, data (cells ! 1))
               \<and> label (cells1 ! nat (data (cells ! 1))) =
                   Some (''Entrypoint_'' @ str_Address (address_style a) (Address (data (cells ! 1))))
               \<and> jump_from (cells1 ! nat (data (cells ! 1))) =
                   jump_from (cells ! nat (data (cells ! 1))) @ [Address 0])
          \<and> (\<forall>cs e l. preparation a cells = Inr (cs, e, l) \<longrightarrow>
                e = data (cells ! 1)
              \<and> label (cs ! nat e) = Some (''Entrypoint_'' @ str_Address (address_style a) (Address e))
              \<and> Address 0 \<in> set (jump_from (cs ! nat e))))
       \<and> (data (cells ! 0) \<noteq> 0 \<longrightarrow>
            get_entry a cells = Inr (cells, 0)
          \<and> (\<forall>cs e l. preparation a cells = Inr (cs, e, l) \<longrightarrow> e = 0))"
proof (intro conjI impI allI)
  assume z: "data (cells ! 0) = 0"
  show "\<exists>cells1. get_entry a cells = Inr (cells1, data (cells ! 1))
               \<and> label (cells1 ! nat (data (cells ! 1))) =
                   Some (''Entrypoint_'' @ str_Address (address_style a) (Address (data (cells ! 1))))
               \<and> jump_from (cells1 ! nat (data (cells ! 1))) =
                   jump_from (cells ! nat (data (cells ! 1))) @ [Address 0]"
    using assms by (simp add: get_entry_indirect [OF assms(1) z assms(2) assms(3)])
  fix cs e l assume p: "preparation a cells = Inr (cs, e, l)"
  note k = entry_label_kept [OF p assms(1) z assms(2) assms(3)]
  show "e = data (cells ! 1)" by (rule k(1))
  show "label (cs ! nat e) = Some (''Entrypoint_'' @ str_Address (address_style a) (Address e))"
    by (rule k(2))
  from k(3) show "Address 0 \<in> set (jump_from (cs ! nat e))"
    by (auto simp: prefix_def)
next
  assume nz: "data (cells ! 0) \<noteq> 0"
  then show g: "get_entry a cells = Inr (cells, 0)"
    using assms(1) by (simp add: get_entry_direct)
  fix cs e l assume "preparation a cells = Inr (cs, e, l)"
  from preparation_phases [OF this] g show "e = 0" by auto
qed

section \<open>The tracer returns on every 16-bit image that ends before 65534\<close>

lemma words16_nth: "words16 cs \<Longrightarrow> k < length cs \<Longrightarrow> 0 \<le> data (cs ! k) \<and> data (cs ! k) \<le> 0xffff"
  by (simp add: words16_def)

lemma words16_alt: "words16 cs = (\<forall>d \<in> set (map data cs). 0 \<le> d \<and> d \<le> 0xffff)"
  by (simp add: words16_def)

lemma words16_data: "map data cs' = map data cs \<Longrightarrow> words16 cs \<Longrightarrow> words16 cs'"
  by (simp add: words16_alt)

lemma map_data_nth: "map data cs' = map data cs \<Longrightarrow> k < length cs \<Longrightarrow> data (cs' ! k) = data (cs ! k)"
  by (metis nth_map length_map)

lemma map_data_length: "map data cs' = map data cs \<Longrightarrow> length cs' = length cs"
  by (metis length_map)

lemma record_xref_total:
  assumes len: "length cs = 0x10000" and w: "words16 cs" and pc: "0 \<le> pc" "pc \<le> 0xfffe"
  shows "\<exists>cs1. record_xref cs pc = Inr cs1"
proof -
  have n: "nat (pc + 1) < length cs" using pc len by simp
  from words16_nth [OF w n] len
  have b: "0 \<le> data (cs ! nat (pc + 1))" "data (cs ! nat (pc + 1)) < int (length cs)"
    by simp_all
  show ?thesis
    using pc len b by (simp add: record_xref_def cell_at_Inr cell_update_Inr)
qed

lemma advance_total:
  "0 \<le> pc \<Longrightarrow> pc + 1 < int (length cs) \<Longrightarrow>
   advance cs pc =
     Inr (if opcode (data (cs ! nat pc)) < 7
          then (cs[nat (pc + 1) := (cs ! nat (pc + 1))\<lparr>is_2nd_word := True\<rparr>], pc + 2)
          else (cs, pc + 1))"
  by (simp add: advance_def cell_at_Inr cell_update_Inr)

lemma one_instruction_total:
  assumes len: "length cs = 0x10000" and w: "words16 cs" and pc: "0 \<le> pc"
    and top: "pc \<le> 0xfffd \<or> (pc \<le> 0xfffe \<and> data (cs ! nat pc) = 0)"
  shows "\<exists>cs' pc'. one_instruction cs pc = Inr (cs', pc') \<and> (pc' = pc + 1 \<or> pc' = pc + 2)"
proof -
  from top have pc2: "pc \<le> 0xfffe" by auto
  from record_xref_total [OF len w pc pc2] obtain cs1 where r: "record_xref cs pc = Inr cs1"
    by blast
  note s1 = record_xref_sweeps [OF r]
  have len1: "length cs1 = 0x10000" using sweeps_length [OF s1] len by simp
  obtain cs2 pc' where a: "advance cs1 pc = Inr (cs2, pc')" and pc': "pc' = pc + 1 \<or> pc' = pc + 2"
    using advance_total [of pc cs1] pc pc2 len1 by (cases "opcode (data (cs1 ! nat pc)) < 7") auto
  note s2 = advance_sweeps [OF a]
  have len2: "length cs2 = 0x10000" using sweeps_length [OF s2] len1 by simp
  have "map data cs2 = map data cs" using sweeps_data [OF s1] sweeps_data [OF s2] by simp
  then have d: "data (cs2 ! nat pc) = data (cs ! nat pc)"
    using pc pc2 len by (intro map_data_nth) auto
  have c: "cell_at cs2 pc = Inr (cs2 ! nat pc)"
    using pc pc2 len2 by (simp add: cell_at_Inr)
  show ?thesis
  proof (cases "data (cs ! nat pc) = 0")
    case True
    with r a c d pc' show ?thesis
      by (simp add: one_instruction_def)
  next
    case False
    with top pc' have "pc' \<le> 0xffff" by auto
    with pc pc' len2 obtain cs3 where
      "cell_update cs2 pc' (\<lambda>t. t\<lparr>exec_from_prev := Some (Address pc)\<rparr>) = Inr cs3"
      by (auto simp: cell_update_Inr)
    with r a c d pc' False show ?thesis
      by (simp add: one_instruction_def)
  qed
qed

lemma main_sweep_total:
  "length cs = 0x10000 \<Longrightarrow> words16 cs \<Longrightarrow> 0 \<le> pc \<Longrightarrow> l \<le> 0xfffd \<Longrightarrow>
   \<exists>cs'. main_sweep cs pc l = Inr cs'"
proof (induction cs pc l rule: main_sweep.induct)
  case (1 cells pc l)
  show ?case
  proof (cases "pc \<le> l")
    case True
    with "1.prems" have "pc \<le> 0xfffd \<or> (pc \<le> 0xfffe \<and> data (cells ! nat pc) = 0)" by auto
    from one_instruction_total [OF "1.prems"(1) "1.prems"(2) "1.prems"(3) this]
    obtain c1 p1 where s: "one_instruction cells pc = Inr (c1, p1)" and p1: "p1 = pc + 1 \<or> p1 = pc + 2"
      by blast
    note sw = one_instruction_sweeps [OF s]
    have "length c1 = 0x10000" using sweeps_length [OF sw] "1.prems"(1) by simp
    moreover have "words16 c1" using sweeps_data [OF sw] "1.prems"(2) by (rule words16_data)
    moreover have "0 \<le> p1" using p1 "1.prems"(3) by auto
    ultimately obtain cs' where "main_sweep c1 p1 l = Inr cs'"
      using "1.IH" [OF True s refl] "1.prems"(4) by blast
    with True s show ?thesis
      by (subst main_sweep.simps) simp
  next
    case False
    then show ?thesis
      by (subst main_sweep.simps) simp
  qed
qed

lemma pre_entry_total:
  "length cs = 0x10000 \<Longrightarrow> words16 cs \<Longrightarrow> 0 \<le> x \<Longrightarrow> e \<le> 0xffff \<Longrightarrow> data (cs ! 0xfffe) = 0 \<Longrightarrow>
   \<exists>cs'. pre_entry cs x e = Inr cs'"
proof (induction cs x e rule: pre_entry.induct)
  case (1 cells x e)
  show ?case
  proof (cases "x < e")
    case False
    then show ?thesis
      by (subst pre_entry.simps) simp
  next
    case True
    with "1.prems" have x: "x \<le> 0xfffe" by simp
    have c: "cell_at cells x = Inr (cells ! nat x)"
      using "1.prems" x by (simp add: cell_at_Inr)
    show ?thesis
    proof (cases "length (jump_from (cells ! nat x)) = 0 \<and> exec_from_prev (cells ! nat x) = None")
      case skip: True
      from "1.IH"(1) [OF True c skip] "1.prems"
      obtain cs' where "pre_entry cells (x + 1) e = Inr cs'" by auto
      with True c skip show ?thesis
        by (subst pre_entry.simps) simp
    next
      case go: False
      have "x \<le> 0xfffd \<or> (x \<le> 0xfffe \<and> data (cells ! nat x) = 0)"
      proof (cases "x \<le> 0xfffd")
        case True
        then show ?thesis by simp
      next
        case False
        with x have "nat x = 0xfffe" by simp
        with x "1.prems"(5) show ?thesis by simp
      qed
      from one_instruction_total [OF "1.prems"(1) "1.prems"(2) "1.prems"(3) this]
      obtain c1 p1 where s: "one_instruction cells x = Inr (c1, p1)" and p1: "p1 = x + 1 \<or> p1 = x + 2"
        by blast
      note sw = one_instruction_sweeps [OF s]
      have "length c1 = 0x10000" using sweeps_length [OF sw] "1.prems"(1) by simp
      moreover have "words16 c1" using sweeps_data [OF sw] "1.prems"(2) by (rule words16_data)
      moreover have "0 \<le> p1" using p1 "1.prems"(3) by auto
      moreover have "data (c1 ! 0xfffe) = 0"
        using map_data_nth [OF sweeps_data [OF sw], of "0xfffe"] "1.prems"(1) "1.prems"(5) by simp
      ultimately obtain cs' where "pre_entry c1 p1 e = Inr cs'"
        using "1.IH"(2) [OF True c go s refl] "1.prems"(4) by blast
      with True c go s show ?thesis
        by (subst pre_entry.simps) auto
    qed
  qed
qed

lemma set_label_total:
  "0 \<le> pc \<Longrightarrow> l < int (length cs) \<Longrightarrow> \<exists>cs'. set_label a cs pc l = Inr cs'"
proof (induction a cs pc l rule: set_label.induct)
  case (1 a cells pc l)
  show ?case
  proof (cases "pc \<le> l")
    case False
    then show ?thesis
      by (subst set_label.simps) simp
  next
    case True
    have c: "cell_at cells pc = Inr (cells ! nat pc)"
      using "1.prems" True by (simp add: cell_at_Inr)
    show ?thesis
    proof (cases "\<not> is_2nd_word (cells ! nat pc) \<and> label (cells ! nat pc) = None
        \<and> length (jump_from (cells ! nat pc)) \<noteq> 0")
      case yes: True
      obtain cs1 where u: "cell_update cells pc
          (\<lambda>t. t\<lparr>label := Some (''loc_'' @ tab_pad (address_style a) (Address pc))\<rparr>) = Inr cs1"
        using "1.prems" True by (simp add: cell_update_Inr)
      have "length cs1 = length cells" using u by (rule cell_update_length)
      with "1.IH"(1) [OF True c yes u] "1.prems"
      obtain cs' where "set_label a cs1 (pc + 1) l = Inr cs'" by auto
      with True c yes u show ?thesis
        by (subst set_label.simps) simp
    next
      case no: False
      from "1.IH"(2) [OF True c no] "1.prems"
      obtain cs' where "set_label a cells (pc + 1) l = Inr cs'" by auto
      with True c no show ?thesis
        by (subst set_label.simps) auto
    qed
  qed
qed

lemma get_entry_total:
  assumes len: "length cs = 0x10000" and w: "words16 cs"
  shows "\<exists>cs1. get_entry a cs = Inr (cs1, if data (cs ! 0) = 0 then data (cs ! 1) else 0)"
proof (cases "data (cs ! 0) = 0")
  case True
  from words16_nth [OF w, of 1] len have "0 \<le> data (cs ! 1)" "data (cs ! 1) \<le> 0xffff" by simp_all
  from get_entry_indirect [OF len True this] True show ?thesis by simp
next
  case False
  with len show ?thesis by (simp add: get_entry_direct)
qed

lemma preparation_data:
  assumes p: "preparation a cs = Inr (cs4, e, l)" and len: "length cs = 0x10000" and w: "words16 cs"
  shows "map data cs4 = map data cs" and "length cs4 = 0x10000" and "0 \<le> e" and "e \<le> 0xffff"
proof -
  from preparation_phases [OF p] obtain cs1 cs2 cs3 where
    g: "get_entry a cs = Inr (cs1, e)" and m: "main_sweep cs1 e l = Inr cs2"
    and q: "pre_entry cs2 0 e = Inr cs3" and s: "set_label a cs3 e l = Inr cs4"
    by blast
  from get_entry_total [OF len w, of a] g have e: "e = (if data (cs ! 0) = 0 then data (cs ! 1) else 0)"
    by auto
  from words16_nth [OF w, of 1] len e show e0: "0 \<le> e" and "e \<le> 0xffff" by auto
  have d3: "map data cs3 = map data cs"
    using get_entry_data [OF g] sweeps_data [OF main_sweep_sweeps [OF m]]
      sweeps_data [OF pre_entry_sweeps [OF q]] by simp
  have len3: "length cs3 = length cs" using d3 by (rule map_data_length)
  from set_label_nth [OF s e0] have len4: "length cs4 = length cs3" by simp
  then show "length cs4 = 0x10000" using len3 len by simp
  have "map data cs4 = map data cs3"
    using len4 set_label_keeps(1) [OF s e0] by (intro nth_equalityI) auto
  with d3 show "map data cs4 = map data cs" by simp
qed

lemma preparation_total:
  assumes len: "length cs = 0x10000" and w: "words16 cs"
    and h: "0 \<le> h" "h \<le> 0xfffd" "data (cs ! nat h) \<noteq> 0"
    and z: "\<forall>k. nat h < k \<and> k \<le> 0xffff \<longrightarrow> data (cs ! k) = 0"
  shows "\<exists>cs'. preparation a cs = Inr (cs', (if data (cs ! 0) = 0 then data (cs ! 1) else 0), h)"
proof -
  define e where "e = (if data (cs ! 0) = 0 then data (cs ! 1) else 0)"
  from get_entry_total [OF len w, of a] obtain cs1 where g: "get_entry a cs = Inr (cs1, e)"
    by (auto simp: e_def)
  from words16_nth [OF w, of 1] len have e: "0 \<le> e" "e \<le> 0xffff" by (auto simp: e_def)
  note d1 = get_entry_data [OF g]
  have len1: "length cs1 = 0x10000" using map_data_length [OF d1] len by simp
  have w1: "words16 cs1" using d1 w by (rule words16_data)
  have "find_last cs 0xffff = Inr h"
    using len h z by (intro find_last_down) auto
  with find_last_data [OF d1] have f: "find_last cs1 0xffff = Inr h" by simp
  from main_sweep_total [OF len1 w1 e(1) h(2)] obtain cs2 where m: "main_sweep cs1 e h = Inr cs2"
    by blast
  note s2 = main_sweep_sweeps [OF m]
  have d2: "map data cs2 = map data cs" using sweeps_data [OF s2] d1 by simp
  have len2: "length cs2 = 0x10000" using map_data_length [OF d2] len by simp
  have w2: "words16 cs2" using d2 w by (rule words16_data)
  have "data (cs ! 0xfffe) = 0" using z h by auto
  then have "data (cs2 ! 0xfffe) = 0" using map_data_nth [OF d2, of "0xfffe"] len by simp
  from pre_entry_total [OF len2 w2 _ e(2) this, of 0] obtain cs3 where q: "pre_entry cs2 0 e = Inr cs3"
    by auto
  have len3: "length cs3 = 0x10000" using sweeps_length [OF pre_entry_sweeps [OF q]] len2 by simp
  from set_label_total [OF e(1), of h cs3 a] h len3 obtain cs4 where "set_label a cs3 e h = Inr cs4"
    by auto
  with g f m q show ?thesis
    by (simp add: preparation_def e_def [symmetric])
qed

lemma img1_nth_Suc: "img1 ! Suc 0 = Cell_init 2"
  by (simp add: img1_def)

theorem entry_resolution_witness:
  "\<exists>cs. preparation default_args img1 = Inr (cs, 2, 4)
      \<and> label (cs ! 2) = Some (''Entrypoint_'' @ str_Address Hex (Address 2))
      \<and> Address 0 \<in> set (jump_from (cs ! 2))"
proof -
  from preparation_total [OF img1_length [simplified] img1_words16, of 4 default_args]
  obtain cs where p: "preparation default_args img1 = Inr (cs, 2, 4)"
    by (auto simp: img1_nth img1_nth_Suc img1_above Cell_init_def)
  from entry_resolution [of img1 default_args] p
  have "label (cs ! 2) = Some (''Entrypoint_'' @ str_Address Hex (Address 2))
      \<and> Address 0 \<in> set (jump_from (cs ! 2))"
    by (simp add: img1_length img1_nth img1_nth_Suc Cell_init_def default_args_def)
  with p show ?thesis by blast
qed

section \<open>Running the loops on a concrete image\<close>

lemma main_sweep_go:
  "pc \<le> l \<Longrightarrow> one_instruction cs pc = Inr (cs', pc') \<Longrightarrow> main_sweep cs pc l = main_sweep cs' pc' l"
  by (subst main_sweep.simps) simp

lemma main_sweep_stop: "\<not> pc \<le> l \<Longrightarrow> main_sweep cs pc l = Inr cs"
  by (subst main_sweep.simps) simp

lemma pre_entry_skip:
  "x < e \<Longrightarrow> cell_at cs x = Inr c \<Longrightarrow> jump_from c = [] \<Longrightarrow> exec_from_prev c = None \<Longrightarrow>
   pre_entry cs x e = pre_entry cs (x + 1) e"
  by (subst pre_entry.simps) simp

lemma pre_entry_go:
  "x < e \<Longrightarrow> cell_at cs x = Inr c \<Longrightarrow> jump_from c \<noteq> [] \<or> exec_from_prev c \<noteq> None \<Longrightarrow>
   one_instruction cs x = Inr (cs', x') \<Longrightarrow> pre_entry cs x e = pre_entry cs' x' e"
  by (subst pre_entry.simps) auto

lemma pre_entry_stop: "\<not> x < e \<Longrightarrow> pre_entry cs x e = Inr cs"
  by (subst pre_entry.simps) simp

lemma set_label_yes:
  "pc \<le> l \<Longrightarrow> cell_at cs pc = Inr c \<Longrightarrow> \<not> is_2nd_word c \<Longrightarrow> label c = None \<Longrightarrow> jump_from c \<noteq> [] \<Longrightarrow>
   cell_update cs pc (\<lambda>t. t\<lparr>label := Some (''loc_'' @ tab_pad (address_style a) (Address pc))\<rparr>) = Inr cs' \<Longrightarrow>
   set_label a cs pc l = set_label a cs' (pc + 1) l"
  by (subst set_label.simps) simp

lemma set_label_no:
  "pc \<le> l \<Longrightarrow> cell_at cs pc = Inr c \<Longrightarrow> is_2nd_word c \<or> label c \<noteq> None \<or> jump_from c = [] \<Longrightarrow>
   set_label a cs pc l = set_label a cs (pc + 1) l"
  by (subst set_label.simps) auto

lemma set_label_stop: "\<not> pc \<le> l \<Longrightarrow> set_label a cs pc l = Inr cs"
  by (subst set_label.simps) simp

lemma find_last_img1: "find_last img1 0xffff = Inr 4"
  by (rule find_last_down) (simp_all add: img1_length img1_nth img1_above Cell_init_def)

lemma preparation_img1: "preparation a img1 = Inr (img1_traced a, 2, 4)"
proof -
  define A where "A = \<lparr>data = 0x1800,
      label = Some (''Entrypoint_'' @ str_Address (address_style a) (Address 2)),
      exec_from_prev = None, is_2nd_word = False,
      read_from = [], write_from = [], jump_from = [Address 0]\<rparr>"
  define B where "B = \<lparr>data = 0, label = None,
      exec_from_prev = Some (Address 2), is_2nd_word = False,
      read_from = [], write_from = [], jump_from = [Address 3]\<rparr>"
  define C where "C = \<lparr>data = 3, label = None, exec_from_prev = None, is_2nd_word = True,
      read_from = [], write_from = [], jump_from = ([] :: Address list)\<rparr>"
  define E where "E = img1[2 := A]"
  define S1 where "S1 = img1[2 := A, 3 := B\<lparr>jump_from := []\<rparr>]"
  define S2 where "S2 = img1[2 := A, 3 := B, 4 := C]"
  have lens: "length E = 65536" "length S1 = 65536" "length S2 = 65536"
    by (simp_all add: E_def S1_def S2_def img1_length)
  have g: "get_entry a img1 = Inr (E, 2)"
    using get_entry_indirect [of img1 a]
    by (simp add: img1_length img1_nth img1_nth_Suc Cell_init_def E_def A_def)
  have "map data E = map data img1"
    using g by (rule get_entry_data)
  from find_last_data [OF this] find_last_img1 have f: "find_last E 0xffff = Inr 4"
    by simp
  have i1: "one_instruction E 2 = Inr (S1, 3)"
    by (simp add: one_instruction_def record_xref_def advance_def cell_at_Inr cell_update_Inr
        lens E_def S1_def A_def B_def opcode_def img1_length img1_nth Cell_init_def)
  have i2: "one_instruction S1 3 = Inr (S2, 5)"
    by (simp add: one_instruction_def record_xref_def advance_def cell_at_Inr cell_update_Inr
        lens S1_def S2_def A_def B_def C_def opcode_def img1_length img1_nth Cell_init_def)
  have m: "main_sweep E 2 4 = Inr S2"
    by (simp add: main_sweep_go [OF _ i1] main_sweep_go [OF _ i2] main_sweep_stop)
  have c0: "cell_at S2 0 = Inr (Cell_init 0)" and c1: "cell_at S2 1 = Inr (Cell_init 2)"
    by (simp_all add: cell_at_Inr lens S2_def img1_length img1_nth img1_nth_Suc)
  have q: "pre_entry S2 0 2 = Inr S2"
    using pre_entry_skip [OF _ c0, of 2] pre_entry_skip [OF _ c1, of 2]
    by (simp add: Cell_init_def pre_entry_stop)
  have l2: "cell_at S2 2 = Inr A" and l3: "cell_at S2 3 = Inr B" and l4: "cell_at S2 4 = Inr C"
    by (simp_all add: cell_at_Inr lens S2_def img1_length)
  have u: "cell_update S2 3 (\<lambda>t. t\<lparr>label := Some (''loc_'' @ tab_pad (address_style a) (Address 3))\<rparr>)
      = Inr (img1_traced a)"
    by (simp add: cell_update_Inr lens, simp add: S2_def img1_traced_def A_def B_def C_def
        img1_length list_update_swap)
  have l4': "cell_at (img1_traced a) 4 = Inr C"
    by (simp add: cell_at_Inr img1_traced_def img1_length C_def)
  have s: "set_label a S2 2 4 = Inr (img1_traced a)"
    using set_label_no [OF _ l2, of 4 a] set_label_yes [OF _ l3 _ _ _ u, of 4]
      set_label_no [OF _ l4', of 4 a]
    by (simp add: A_def B_def C_def set_label_stop)
  show ?thesis
    by (simp add: preparation_def g f m q s)
qed

section \<open>Labels\<close>

lemma fresh_nth: "fresh_image cs \<Longrightarrow> k < 0x10000 \<Longrightarrow> cs ! k = Cell_init (data (cs ! k))"
  by (simp add: fresh_image_def)

lemma replicate_3: "replicate 3 x = [x, x, x]"
  by (simp add: numeral_3_eq_3)

lemma str_Address_Hex_small:
  "str_Address Hex (Address 2) = ''0002''" "str_Address Hex (Address 3) = ''0003''"
  by (simp_all add: str_Address_def to_hex_def format_X_def Let_def digits_of_small digit_char_def
      hexdigits_def replicate_3)

lemma str_Address_Deci_small:
  "str_Address Deci (Address 2) = ''2''" "str_Address Deci (Address 3) = ''3''"
  by (simp_all add: str_Address_def py_str_def digits_of_small digit_char_def hexdigits_def)

text \<open>
  Claim C6, as the code has it. On a freshly loaded 16-bit image, when \<open>preparation\<close>
  returns, the label of every cell is determined: the entry cell of an image with an entry
  vector carries \<open>Entrypoint_<addr>\<close>; any other cell from \<open>entry\<close> to \<open>last\<close> that is not
  a second word and has a jump origin carries \<open>loc_\<close> followed by \<open>Address.tab_pad()\<close>,
  which is the address text and a tab when that text is shorter than four characters;
  every other cell has no label.
\<close>

theorem labels_of_jump_targets:
  assumes f: "fresh_image cells" and w: "words16 cells"
    and p: "preparation a cells = Inr (cs, e, l)" and k: "k < 0x10000"
  shows "label (cs ! k) =
     (if data (cells ! 0) = 0 \<and> int k = e
      then Some (''Entrypoint_'' @ str_Address (address_style a) (Address e))
      else if e \<le> int k \<and> int k \<le> l \<and> \<not> is_2nd_word (cs ! k) \<and> jump_from (cs ! k) \<noteq> []
      then Some (''loc_'' @ tab_pad (address_style a) (Address (int k)))
      else None)"
proof -
  from f have len: "length cells = 0x10000" by (simp add: fresh_image_def)
  from preparation_phases [OF p] obtain cs1 cs2 cs3 where
    g: "get_entry a cells = Inr (cs1, e)" and m: "main_sweep cs1 e l = Inr cs2"
    and q: "pre_entry cs2 0 e = Inr cs3" and s: "set_label a cs3 e l = Inr cs"
    by blast
  note e = preparation_data(3,4) [OF p len w]
  have none: "label (cells ! k) = None"
    using fresh_nth [OF f k] by (metis Cell.select_convs(2) Cell_init_def)
  have l1: "label (cs1 ! k) =
     (if data (cells ! 0) = 0 \<and> int k = e
      then Some (''Entrypoint_'' @ str_Address (address_style a) (Address e)) else None)"
  proof (cases "data (cells ! 0) = 0")
    case True
    from words16_nth [OF w, of 1] len have b: "0 \<le> data (cells ! 1)" "data (cells ! 1) \<le> 0xffff"
      by simp_all
    define X where "X = cells[nat (data (cells ! 1)) := (cells ! nat (data (cells ! 1)))
            \<lparr>label := Some (''Entrypoint_'' @ str_Address (address_style a) (Address (data (cells ! 1)))),
             jump_from := jump_from (cells ! nat (data (cells ! 1))) @ [Address 0]\<rparr>]"
    have gi: "get_entry a cells = Inr (X, data (cells ! 1))"
      unfolding X_def by (rule get_entry_indirect [OF len True b])
    from g gi have e1: "data (cells ! 1) = e" and c1: "cs1 = X" by simp_all
    have ke: "(int k = e) = (k = nat e)" using e by auto
    have X': "X = cells[nat e := (cells ! nat e)
            \<lparr>label := Some (''Entrypoint_'' @ str_Address (address_style a) (Address e)),
             jump_from := jump_from (cells ! nat e) @ [Address 0]\<rparr>]"
      unfolding X_def e1 ..
    have "label (X ! k) = (if k = nat e
        then Some (''Entrypoint_'' @ str_Address (address_style a) (Address e)) else None)"
      using none k len by (simp add: X' nth_list_update)
    with True ke show ?thesis
      by (simp add: c1)
  next
    case False
    with g len have "cs1 = cells" by (simp add: get_entry_direct)
    with False none show ?thesis by simp
  qed
  have len1: "length cs1 = 0x10000"
    using map_data_length [OF get_entry_data [OF g]] len by simp
  have sw: "list_all2 sweep_le cs1 cs3"
    using main_sweep_sweeps [OF m] pre_entry_sweeps [OF q] by (rule sweeps_trans)
  have len3: "length cs3 = 0x10000" using sweeps_length [OF sw] len1 by simp
  from sweeps_nth [OF sw, of k] k len1 have l3: "label (cs3 ! k) = label (cs1 ! k)"
    by (simp add: sweep_le_def)
  have k3: "k < length cs3" using k len3 by simp
  from set_label_nth [OF s e(1)] k3 have n: "cs ! k =
      (if e \<le> int k \<and> int k \<le> l \<and> \<not> is_2nd_word (cs3 ! k) \<and> label (cs3 ! k) = None
          \<and> jump_from (cs3 ! k) \<noteq> []
       then (cs3 ! k)\<lparr>label := Some (''loc_'' @ tab_pad (address_style a) (Address (int k)))\<rparr>
       else cs3 ! k)"
    by simp
  note keep = set_label_keeps(2,5) [OF s e(1) k3]
  show ?thesis
    using n l3 l1 keep by (auto split: if_splits)
qed

theorem labels_of_jump_targets_witness:
  "preparation default_args img1 = Inr (img1_traced default_args, 2, 4)
   \<and> label (img1_traced default_args ! 3) = Some ''loc_0003''
   \<and> label (img1_traced default_args ! 4) = None"
proof -
  have p: "preparation default_args img1 = Inr (img1_traced default_args, 2, 4)"
    by (rule preparation_img1)
  have t: "tab_pad Hex (Address 3) = ''0003''"
    by (simp add: tab_pad_def str_Address_Hex_small)
  from labels_of_jump_targets [OF img1_fresh img1_words16 p, of 3]
    labels_of_jump_targets [OF img1_fresh img1_words16 p, of 4]
  have "label (img1_traced default_args ! 3) = Some ''loc_0003''
      \<and> label (img1_traced default_args ! 4) = None"
    by (simp add: img1_traced_def img1_length img1_nth Cell_init_def default_args_def t)
  with p show ?thesis by simp
qed

text \<open>
  Claim C6 as stated fails at the entry cell of \<open>img1\<close>: address 2 has a jump origin, is
  not a second word, and its label is \<open>Entrypoint_0002\<close>, not \<open>loc_0002\<close>. With the
  decimal style the label of address 3 is \<open>loc_3\<close> followed by a tab.
\<close>

theorem entry_cell_label_is_not_loc:
  "preparation default_args img1 = Inr (img1_traced default_args, 2, 4)
   \<and> jump_from (img1_traced default_args ! 2) = [Address 0]
   \<and> \<not> is_2nd_word (img1_traced default_args ! 2)
   \<and> label (img1_traced default_args ! 2) = Some ''Entrypoint_0002''
   \<and> label (img1_traced (default_args\<lparr>address_style := Deci\<rparr>) ! 3) = Some (''loc_3'' @ [CHR 0x09])"
  by (simp add: preparation_img1 img1_traced_def img1_length default_args_def
      str_Address_Hex_small str_Address_Deci_small tab_pad_def)

section \<open>A second run of the tracer\<close>

lemma cell_le_refl: "cell_le c c"
  by (simp add: cell_le_def)

lemma cell_le_trans: "cell_le a b \<Longrightarrow> cell_le b c \<Longrightarrow> cell_le a c"
  by (auto simp: cell_le_def)

lemma sweep_le_cell_le: "sweep_le c c' \<Longrightarrow> cell_le c c'"
  by (simp add: sweep_le_def cell_le_def)

lemma cells_le_trans:
  assumes "list_all2 cell_le as bs" and "list_all2 cell_le bs cs"
  shows "list_all2 cell_le as cs"
  using cell_le_trans assms by (rule list_all2_trans)

lemma sweeps_cells_le: "list_all2 sweep_le cs cs' \<Longrightarrow> list_all2 cell_le cs cs'"
  by (erule list_all2_mono) (rule sweep_le_cell_le)

lemma set_label_cells_le:
  assumes "set_label a cs pc l = Inr cs'" and "0 \<le> pc"
  shows "list_all2 cell_le cs cs'"
  using set_label_nth [OF assms]
  by (auto simp: list_all2_conv_all_nth cell_le_def)

lemma second_run:
  assumes len: "length cells = 0x10000" and w: "words16 cells"
    and p1: "preparation a cells = Inr (cs1, e1, l1)"
    and p2: "preparation a cs1 = Inr (cs2, e2, l2)"
  shows "e2 = e1" and "l2 = l1" and "list_all2 cell_le cs1 cs2"
    and "data (cells ! 0) = 0 \<Longrightarrow>
         prefix (jump_from (cs1 ! nat e1) @ [Address 0]) (jump_from (cs2 ! nat e1))"
proof -
  note d1 = preparation_data(1) [OF p1 len w]
  note len1 = preparation_data(2) [OF p1 len w]
  have w1: "words16 cs1" using d1 w by (rule words16_data)
  have d0: "data (cs1 ! 0) = data (cells ! 0)" and d1': "data (cs1 ! 1) = data (cells ! 1)"
    using map_data_nth [OF d1, of 0] map_data_nth [OF d1, of 1] len by simp_all
  from preparation_phases [OF p1] obtain x1 where
    g1: "get_entry a cells = Inr (x1, e1)" and f1: "find_last x1 0xffff = Inr l1"
    by blast
  from preparation_phases [OF p2] obtain y1 y2 y3 where
    g2: "get_entry a cs1 = Inr (y1, e2)" and f2: "find_last y1 0xffff = Inr l2"
    and m2: "main_sweep y1 e2 l2 = Inr y2" and q2: "pre_entry y2 0 e2 = Inr y3"
    and s2: "set_label a y3 e2 l2 = Inr cs2"
    by blast
  from get_entry_total [OF len w, of a] g1 get_entry_total [OF len1 w1, of a] g2 d0 d1'
  show e: "e2 = e1" by auto
  have "map data y1 = map data x1"
    using get_entry_data [OF g1] get_entry_data [OF g2] d1 by simp
  from find_last_data [OF this] f1 f2 show "l2 = l1" by simp
  note e0 = preparation_data(3) [OF p2 len1 w1]
  from words16_nth [OF w, of 1] len have b: "0 \<le> data (cells ! 1)" "data (cells ! 1) \<le> 0xffff"
    by simp_all
  have "list_all2 cell_le cs1 y1"
  proof (cases "data (cells ! 0) = 0")
    case True
    note k = entry_label_kept [OF p1 len True b]
    have b1: "0 \<le> data (cs1 ! 1)" "data (cs1 ! 1) \<le> 0xffff" using b d1' by simp_all
    define Y where "Y = cs1[nat (data (cs1 ! 1)) := (cs1 ! nat (data (cs1 ! 1)))
            \<lparr>label := Some (''Entrypoint_'' @ str_Address (address_style a) (Address (data (cs1 ! 1)))),
             jump_from := jump_from (cs1 ! nat (data (cs1 ! 1))) @ [Address 0]\<rparr>]"
    have z1: "data (cs1 ! 0) = 0" using True d0 by simp
    have gi: "get_entry a cs1 = Inr (Y, data (cs1 ! 1))"
      unfolding Y_def by (rule get_entry_indirect [OF len1 z1 b1])
    from g2 gi have "y1 = Y" by simp
    moreover have ee: "data (cs1 ! 1) = e1" using d1' k(1) by simp
    moreover have "Y = cs1[nat e1 := (cs1 ! nat e1)
            \<lparr>label := Some (''Entrypoint_'' @ str_Address (address_style a) (Address e1)),
             jump_from := jump_from (cs1 ! nat e1) @ [Address 0]\<rparr>]"
      unfolding Y_def ee ..
    ultimately have y1: "y1 = cs1[nat e1 := (cs1 ! nat e1)
            \<lparr>label := Some (''Entrypoint_'' @ str_Address (address_style a) (Address e1)),
             jump_from := jump_from (cs1 ! nat e1) @ [Address 0]\<rparr>]"
      by simp
    have "list_all2 cell_le (cs1[nat e1 := cs1 ! nat e1]) y1"
      unfolding y1
      by (rule list_all2_update_cong)
         (simp_all add: list_all2_refl cell_le_refl cell_le_def k(2))
    then show ?thesis by simp
  next
    case False
    with g2 len1 d0 have "y1 = cs1" by (simp add: get_entry_direct)
    then show ?thesis by (simp add: list_all2_refl cell_le_refl)
  qed
  moreover have "list_all2 cell_le y1 y3"
    using main_sweep_sweeps [OF m2] pre_entry_sweeps [OF q2]
    by (intro sweeps_cells_le) (rule sweeps_trans)
  moreover have "list_all2 cell_le y3 cs2"
    using s2 e0 by (rule set_label_cells_le)
  ultimately show "list_all2 cell_le cs1 cs2"
    by (blast intro: cells_le_trans)
  assume z: "data (cells ! 0) = 0"
  have b1: "0 \<le> data (cs1 ! 1)" "data (cs1 ! 1) \<le> 0xffff" using b d1' by simp_all
  from entry_label_kept(3) [OF p2 len1 _ b1] z d0 e
  show "prefix (jump_from (cs1 ! nat e1) @ [Address 0]) (jump_from (cs2 ! nat e1))"
    by simp
qed

lemma second_run_img1: "\<exists>cs2. preparation a (img1_traced a) = Inr (cs2, 2, 4)"
proof -
  have len: "length (img1_traced a) = 0x10000"
    by (simp add: img1_traced_def img1_length)
  have d: "map data (img1_traced a) = map data img1"
    using preparation_data(1) [OF preparation_img1 _ img1_words16] by (simp add: img1_length)
  have w: "words16 (img1_traced a)"
    using d img1_words16 by (rule words16_data)
  have z: "\<forall>k. nat 4 < k \<and> k \<le> 0xffff \<longrightarrow> data (img1_traced a ! k) = 0"
    by (simp add: img1_traced_def img1_above Cell_init_def)
  from preparation_total [OF len w _ _ _ z, of a] show ?thesis
    by (simp add: img1_traced_def img1_length img1_nth img1_nth_Suc Cell_init_def)
qed

text \<open>
  Claim C5, as the code has it. A second \<open>preparation\<close> on the cells the first one has
  traced finds the same \<open>entry\<close> and \<open>last\<close>, keeps every word, every label and every
  \<open>is_2nd_word\<close> mark, and every cross-reference list of the first run is a prefix of the
  list after the second. Nothing is reset: with an entry vector the origin \<open>Address(0)\<close>
  is appended to the entry cell's \<open>jump_from\<close> once more.
\<close>

theorem second_run_extends:
  assumes "length cells = 0x10000" and "words16 cells"
    and "preparation a cells = Inr (cs1, e1, l1)"
    and "preparation a cs1 = Inr (cs2, e2, l2)"
  shows "e2 = e1 \<and> l2 = l1 \<and> list_all2 cell_le cs1 cs2
       \<and> (data (cells ! 0) = 0 \<longrightarrow>
            prefix (jump_from (cs1 ! nat e1) @ [Address 0]) (jump_from (cs2 ! nat e1)))"
  using second_run [OF assms] by blast

theorem second_run_extends_witness:
  "\<exists>cs2. preparation default_args img1 = Inr (img1_traced default_args, 2, 4)
     \<and> preparation default_args (img1_traced default_args) = Inr (cs2, 2, 4)
     \<and> list_all2 cell_le (img1_traced default_args) cs2
     \<and> prefix [Address 0, Address 0] (jump_from (cs2 ! 2))"
proof -
  from second_run_img1 obtain cs2 where
    p2: "preparation default_args (img1_traced default_args) = Inr (cs2, 2, 4)" by blast
  from second_run_extends [OF _ img1_words16 preparation_img1 p2]
  have "list_all2 cell_le (img1_traced default_args) cs2
     \<and> prefix [Address 0, Address 0] (jump_from (cs2 ! 2))"
    by (simp add: img1_length img1_nth Cell_init_def img1_traced_def)
  with p2 preparation_img1 show ?thesis by blast
qed

text \<open>
  Claim C5 as stated fails on \<open>img1\<close>: after the first run the entry cell has the one jump
  origin \<open>Address(0)\<close>; after the second run its list is longer.
\<close>

theorem second_run_accumulates:
  "\<exists>cs2. preparation default_args img1 = Inr (img1_traced default_args, 2, 4)
     \<and> preparation default_args (img1_traced default_args) = Inr (cs2, 2, 4)
     \<and> jump_from (img1_traced default_args ! 2) = [Address 0]
     \<and> jump_from (cs2 ! 2) \<noteq> [Address 0]
     \<and> cs2 \<noteq> img1_traced default_args"
proof -
  from second_run_img1 obtain cs2 where
    p2: "preparation default_args (img1_traced default_args) = Inr (cs2, 2, 4)" by blast
  have j: "jump_from (img1_traced default_args ! 2) = [Address 0]"
    by (simp add: img1_traced_def img1_length)
  from second_run(4) [OF _ img1_words16 preparation_img1 p2] j
  have "prefix [Address 0, Address 0] (jump_from (cs2 ! 2))"
    by (simp add: img1_length img1_nth Cell_init_def)
  then have n: "jump_from (cs2 ! 2) \<noteq> [Address 0]"
    by (auto simp: prefix_def)
  with j have "cs2 \<noteq> img1_traced default_args" by auto
  with p2 preparation_img1 j n show ?thesis by blast
qed

section \<open>The trace and the rendering options\<close>

lemma unlabel_fields [simp]:
  "data (unlabel c) = data c" "jump_from (unlabel c) = jump_from c"
  "read_from (unlabel c) = read_from c" "write_from (unlabel c) = write_from c"
  "is_2nd_word (unlabel c) = is_2nd_word c" "exec_from_prev (unlabel c) = exec_from_prev c"
  "(label (unlabel c) = None) = (label c = None)"
  by (simp_all add: unlabel_def)

lemma unlabel_updates [simp]:
  "unlabel (c\<lparr>jump_from := j\<rparr>) = (unlabel c)\<lparr>jump_from := j\<rparr>"
  "unlabel (c\<lparr>read_from := j\<rparr>) = (unlabel c)\<lparr>read_from := j\<rparr>"
  "unlabel (c\<lparr>write_from := j\<rparr>) = (unlabel c)\<lparr>write_from := j\<rparr>"
  "unlabel (c\<lparr>is_2nd_word := b\<rparr>) = (unlabel c)\<lparr>is_2nd_word := b\<rparr>"
  "unlabel (c\<lparr>exec_from_prev := x\<rparr>) = (unlabel c)\<lparr>exec_from_prev := x\<rparr>"
  "unlabel (c\<lparr>label := Some s\<rparr>) = (unlabel c)\<lparr>label := Some []\<rparr>"
  by (simp_all add: unlabel_def)

lemma unlabel_eqD:
  assumes "unlabel c = unlabel c'"
  shows "data c = data c'" "jump_from c = jump_from c'" "read_from c = read_from c'"
    "write_from c = write_from c'" "is_2nd_word c = is_2nd_word c'"
    "exec_from_prev c = exec_from_prev c'" "(label c = None) = (label c' = None)"
proof -
  show "data c = data c'" using arg_cong [OF assms, of data] by simp
  show "jump_from c = jump_from c'" using arg_cong [OF assms, of jump_from] by simp
  show "read_from c = read_from c'" using arg_cong [OF assms, of read_from] by simp
  show "write_from c = write_from c'" using arg_cong [OF assms, of write_from] by simp
  show "is_2nd_word c = is_2nd_word c'" using arg_cong [OF assms, of is_2nd_word] by simp
  show "exec_from_prev c = exec_from_prev c'" using arg_cong [OF assms, of exec_from_prev] by simp
  show "(label c = None) = (label c' = None)"
    using arg_cong [OF assms, of "\<lambda>x. label x = None"] by simp
qed

lemma sum_relD:
  "map_sum id f x = map_sum id f y \<Longrightarrow>
   (\<exists>e. x = Inl e \<and> y = Inl e) \<or> (\<exists>u v. x = Inr u \<and> y = Inr v \<and> f u = f v)"
  by (cases x; cases y) auto

lemma cell_at_unlabel: "cell_at (map unlabel cs) i = map_sum id unlabel (cell_at cs i)"
  by (auto simp: cell_at_def dest: py_index_less split: option.splits)

lemma cell_update_unlabel:
  "(\<And>c. f (unlabel c) = unlabel (f c)) \<Longrightarrow>
   cell_update (map unlabel cs) i f = map_sum id (map unlabel) (cell_update cs i f)"
  by (auto simp: cell_update_def map_update dest: py_index_less split: option.splits)

lemma cell_at_erase:
  "map unlabel cs = map unlabel cs' \<Longrightarrow> map_sum id unlabel (cell_at cs i) = map_sum id unlabel (cell_at cs' i)"
  by (simp add: cell_at_unlabel [symmetric])

lemma cell_update_erase:
  assumes R: "map unlabel cs = map unlabel cs'"
    and f: "\<And>c c'. unlabel c = unlabel c' \<Longrightarrow> unlabel (f c) = unlabel (f' c')"
  shows "map_sum id (map unlabel) (cell_update cs i f) = map_sum id (map unlabel) (cell_update cs' i f')"
proof -
  from R have len: "length cs = length cs'" by (metis length_map)
  show ?thesis
  proof (cases "py_index (length cs) i")
    case None
    then show ?thesis by (simp add: cell_update_def len [symmetric])
  next
    case (Some k)
    then have k: "k < length cs" by (rule py_index_less)
    have "unlabel (cs ! k) = unlabel (cs' ! k)" using R k by (metis nth_map len)
    from f [OF this] R Some show ?thesis
      by (simp add: cell_update_def len [symmetric] map_update)
  qed
qed

lemma record_xref_unlabel:
  "record_xref (map unlabel cs) pc = map_sum id (map unlabel) (record_xref cs pc)"
proof (cases "cell_at cs pc")
  case (Inl e)
  then show ?thesis by (simp add: record_xref_def cell_at_unlabel)
next
  case c: (Inr c)
  show ?thesis
  proof (cases "cell_at cs (pc + 1)")
    case (Inl e)
    with c show ?thesis by (simp add: record_xref_def cell_at_unlabel)
  next
    case (Inr n)
    with c show ?thesis
      by (simp add: record_xref_def cell_at_unlabel cell_update_unlabel)
  qed
qed

lemma advance_unlabel:
  "advance (map unlabel cs) pc = map_sum id (map_prod (map unlabel) id) (advance cs pc)"
proof (cases "cell_at cs pc")
  case (Inl e)
  then show ?thesis by (simp add: advance_def cell_at_unlabel)
next
  case c: (Inr c)
  show ?thesis
  proof (cases "cell_update cs (pc + 1) (\<lambda>t. t\<lparr>is_2nd_word := True\<rparr>)")
    case (Inl e)
    with c show ?thesis by (simp add: advance_def cell_at_unlabel cell_update_unlabel)
  next
    case (Inr n)
    with c show ?thesis by (simp add: advance_def cell_at_unlabel cell_update_unlabel)
  qed
qed

lemma one_instruction_unlabel:
  "one_instruction (map unlabel cs) pc = map_sum id (map_prod (map unlabel) id) (one_instruction cs pc)"
proof (cases "record_xref cs pc")
  case (Inl e)
  then show ?thesis by (simp add: one_instruction_def record_xref_unlabel)
next
  case r: (Inr cs1)
  show ?thesis
  proof (cases "advance cs1 pc")
    case (Inl e)
    with r show ?thesis by (simp add: one_instruction_def record_xref_unlabel advance_unlabel)
  next
    case (Inr x)
    obtain cs2 p where x: "x = (cs2, p)" by (cases x)
    with Inr have a: "advance cs1 pc = Inr (cs2, p)" by simp
    show ?thesis
    proof (cases "cell_at cs2 pc")
      case (Inl e)
      with r a show ?thesis
        by (simp add: one_instruction_def record_xref_unlabel advance_unlabel cell_at_unlabel)
    next
      case c: (Inr c)
      show ?thesis
      proof (cases "cell_update cs2 p (\<lambda>t. t\<lparr>exec_from_prev := Some (Address pc)\<rparr>)")
        case (Inl e)
        with r a c show ?thesis
          by (simp add: one_instruction_def record_xref_unlabel advance_unlabel cell_at_unlabel
              cell_update_unlabel)
      next
        case (Inr cs3)
        with r a c show ?thesis
          by (simp add: one_instruction_def record_xref_unlabel advance_unlabel cell_at_unlabel
              cell_update_unlabel)
      qed
    qed
  qed
qed

lemma main_sweep_err: "pc \<le> l \<Longrightarrow> one_instruction cs pc = Inl e \<Longrightarrow> main_sweep cs pc l = Inl e"
  by (subst main_sweep.simps) simp

lemma pre_entry_err_at: "x < e \<Longrightarrow> cell_at cs x = Inl r \<Longrightarrow> pre_entry cs x e = Inl r"
  by (subst pre_entry.simps) simp

lemma pre_entry_err:
  "x < e \<Longrightarrow> cell_at cs x = Inr c \<Longrightarrow> jump_from c \<noteq> [] \<or> exec_from_prev c \<noteq> None \<Longrightarrow>
   one_instruction cs x = Inl r \<Longrightarrow> pre_entry cs x e = Inl r"
  by (subst pre_entry.simps) auto

lemma set_label_err_at: "pc \<le> l \<Longrightarrow> cell_at cs pc = Inl r \<Longrightarrow> set_label a cs pc l = Inl r"
  by (subst set_label.simps) simp

lemma set_label_err:
  "pc \<le> l \<Longrightarrow> cell_at cs pc = Inr c \<Longrightarrow> \<not> is_2nd_word c \<Longrightarrow> label c = None \<Longrightarrow> jump_from c \<noteq> [] \<Longrightarrow>
   cell_update cs pc (\<lambda>t. t\<lparr>label := Some (''loc_'' @ tab_pad (address_style a) (Address pc))\<rparr>) = Inl r \<Longrightarrow>
   set_label a cs pc l = Inl r"
  by (subst set_label.simps) simp

lemma main_sweep_unlabel:
  "main_sweep (map unlabel cs) pc l = map_sum id (map unlabel) (main_sweep cs pc l)"
proof (induction cs pc l rule: main_sweep.induct)
  case (1 cells pc l)
  show ?case
  proof (cases "pc \<le> l")
    case False
    then show ?thesis by (simp add: main_sweep_stop)
  next
    case True
    show ?thesis
    proof (cases "one_instruction cells pc")
      case (Inl e)
      then have "one_instruction (map unlabel cells) pc = Inl e"
        by (simp add: one_instruction_unlabel)
      with True Inl show ?thesis by (simp add: main_sweep_err)
    next
      case (Inr r)
      obtain c1 p1 where "r = (c1, p1)" by (cases r)
      with Inr have i: "one_instruction cells pc = Inr (c1, p1)" by simp
      then have i': "one_instruction (map unlabel cells) pc = Inr (map unlabel c1, p1)"
        by (simp add: one_instruction_unlabel)
      from "1.IH" [OF True i refl] main_sweep_go [OF True i] main_sweep_go [OF True i']
      show ?thesis by simp
    qed
  qed
qed

lemma pre_entry_unlabel:
  "pre_entry (map unlabel cs) x e = map_sum id (map unlabel) (pre_entry cs x e)"
proof (induction cs x e rule: pre_entry.induct)
  case (1 cells x e)
  show ?case
  proof (cases "x < e")
    case False
    then show ?thesis by (simp add: pre_entry_stop)
  next
    case True
    show ?thesis
    proof (cases "cell_at cells x")
      case (Inl r)
      then have "cell_at (map unlabel cells) x = Inl r" by (simp add: cell_at_unlabel)
      with True Inl show ?thesis by (simp add: pre_entry_err_at)
    next
      case c: (Inr c)
      then have c': "cell_at (map unlabel cells) x = Inr (unlabel c)" by (simp add: cell_at_unlabel)
      show ?thesis
      proof (cases "length (jump_from c) = 0 \<and> exec_from_prev c = None")
        case skip: True
        from "1.IH"(1) [OF True c skip] pre_entry_skip [OF True c] pre_entry_skip [OF True c'] skip
        show ?thesis by simp
      next
        case go: False
        then have g: "jump_from c \<noteq> [] \<or> exec_from_prev c \<noteq> None" by auto
        then have g': "jump_from (unlabel c) \<noteq> [] \<or> exec_from_prev (unlabel c) \<noteq> None" by simp
        show ?thesis
        proof (cases "one_instruction cells x")
          case (Inl r)
          then have "one_instruction (map unlabel cells) x = Inl r"
            by (simp add: one_instruction_unlabel)
          from pre_entry_err [OF True c' g' this] pre_entry_err [OF True c g Inl]
          show ?thesis by simp
        next
          case (Inr r)
          obtain c1 p1 where "r = (c1, p1)" by (cases r)
          with Inr have i: "one_instruction cells x = Inr (c1, p1)" by simp
          then have i': "one_instruction (map unlabel cells) x = Inr (map unlabel c1, p1)"
            by (simp add: one_instruction_unlabel)
          from "1.IH"(2) [OF True c go i refl] pre_entry_go [OF True c g i]
            pre_entry_go [OF True c' g' i']
          show ?thesis by simp
        qed
      qed
    qed
  qed
qed

lemma set_label_erase:
  "map unlabel cs = map unlabel cs' \<Longrightarrow>
   map_sum id (map unlabel) (set_label a cs pc l) = map_sum id (map unlabel) (set_label a' cs' pc l)"
proof (induction a cs pc l arbitrary: cs' rule: set_label.induct)
  case (1 a cells pc l)
  note R = "1.prems"
  show ?case
  proof (cases "pc \<le> l")
    case False
    with R show ?thesis by (simp add: set_label_stop)
  next
    case True
    from sum_relD [OF cell_at_erase [OF R, of pc]] show ?thesis
    proof (elim disjE exE conjE)
      fix r assume "cell_at cells pc = Inl r" "cell_at cs' pc = Inl r"
      with True show ?thesis by (simp add: set_label_err_at)
    next
      fix u v assume u: "cell_at cells pc = Inr u" and v: "cell_at cs' pc = Inr v"
        and uv: "unlabel u = unlabel v"
      note f = unlabel_eqD [OF uv]
      show ?thesis
      proof (cases "\<not> is_2nd_word u \<and> label u = None \<and> length (jump_from u) \<noteq> 0")
        case yes: True
        with f have yv: "\<not> is_2nd_word v" "label v = None" "jump_from v \<noteq> []" by auto
        from yes have yu: "\<not> is_2nd_word u" "label u = None" "jump_from u \<noteq> []" by auto
        have "map_sum id (map unlabel)
            (cell_update cells pc (\<lambda>t. t\<lparr>label := Some (''loc_'' @ tab_pad (address_style a) (Address pc))\<rparr>))
          = map_sum id (map unlabel)
            (cell_update cs' pc (\<lambda>t. t\<lparr>label := Some (''loc_'' @ tab_pad (address_style a') (Address pc))\<rparr>))"
          using R by (rule cell_update_erase) simp
        from sum_relD [OF this] show ?thesis
        proof (elim disjE exE conjE)
          fix r assume
            "cell_update cells pc (\<lambda>t. t\<lparr>label := Some (''loc_'' @ tab_pad (address_style a) (Address pc))\<rparr>) = Inl r"
            "cell_update cs' pc (\<lambda>t. t\<lparr>label := Some (''loc_'' @ tab_pad (address_style a') (Address pc))\<rparr>) = Inl r"
          with True u v yu yv show ?thesis by (simp add: set_label_err)
        next
          fix x y assume
            x: "cell_update cells pc (\<lambda>t. t\<lparr>label := Some (''loc_'' @ tab_pad (address_style a) (Address pc))\<rparr>) = Inr x"
            and y: "cell_update cs' pc (\<lambda>t. t\<lparr>label := Some (''loc_'' @ tab_pad (address_style a') (Address pc))\<rparr>) = Inr y"
            and xy: "map unlabel x = map unlabel y"
          from "1.IH"(1) [OF True u yes x xy]
            set_label_yes [OF True u yu x] set_label_yes [OF True v yv y]
          show ?thesis by simp
        qed
      next
        case no: False
        then have nu: "is_2nd_word u \<or> label u \<noteq> None \<or> jump_from u = []" by auto
        with f have nv: "is_2nd_word v \<or> label v \<noteq> None \<or> jump_from v = []" by auto
        from "1.IH"(2) [OF True u no R] set_label_no [OF True u nu] set_label_no [OF True v nv]
        show ?thesis by simp
      qed
    qed
  qed
qed

lemma get_entry_erase:
  assumes R: "map unlabel cs = map unlabel cs'"
  shows "map_sum id (map_prod (map unlabel) id) (get_entry a cs)
       = map_sum id (map_prod (map unlabel) id) (get_entry a' cs')"
proof -
  from sum_relD [OF cell_at_erase [OF R, of 0]] show ?thesis
  proof (elim disjE exE conjE)
    fix r assume "cell_at cs 0 = Inl r" "cell_at cs' 0 = Inl r"
    then show ?thesis by (simp add: get_entry_def)
  next
    fix u v assume u: "cell_at cs 0 = Inr u" and v: "cell_at cs' 0 = Inr v" and uv: "unlabel u = unlabel v"
    note d0 = unlabel_eqD(1) [OF uv]
    show ?thesis
    proof (cases "data u = 0")
      case False
      with u v d0 R show ?thesis by (simp add: get_entry_def)
    next
      case True
      from sum_relD [OF cell_at_erase [OF R, of 1]] show ?thesis
      proof (elim disjE exE conjE)
        fix r assume "cell_at cs 1 = Inl r" "cell_at cs' 1 = Inl r"
        with u v d0 True show ?thesis by (simp add: get_entry_def)
      next
        fix u1 v1 assume u1: "cell_at cs 1 = Inr u1" and v1: "cell_at cs' 1 = Inr v1"
          and uv1: "unlabel u1 = unlabel v1"
        note d1 = unlabel_eqD(1) [OF uv1]
        have "map_sum id (map unlabel)
            (cell_update cs (data u1)
              (\<lambda>t. t\<lparr>label := Some (''Entrypoint_'' @ str_Address (address_style a) (Address (data u1)))\<rparr>))
          = map_sum id (map unlabel)
            (cell_update cs' (data u1)
              (\<lambda>t. t\<lparr>label := Some (''Entrypoint_'' @ str_Address (address_style a') (Address (data u1)))\<rparr>))"
          using R by (rule cell_update_erase) simp
        from sum_relD [OF this] show ?thesis
        proof (elim disjE exE conjE)
          fix r assume
            "cell_update cs (data u1)
              (\<lambda>t. t\<lparr>label := Some (''Entrypoint_'' @ str_Address (address_style a) (Address (data u1)))\<rparr>) = Inl r"
            "cell_update cs' (data u1)
              (\<lambda>t. t\<lparr>label := Some (''Entrypoint_'' @ str_Address (address_style a') (Address (data u1)))\<rparr>) = Inl r"
          with u v u1 v1 d0 d1 True show ?thesis by (simp add: get_entry_def)
        next
          fix x y assume
            x: "cell_update cs (data u1)
              (\<lambda>t. t\<lparr>label := Some (''Entrypoint_'' @ str_Address (address_style a) (Address (data u1)))\<rparr>) = Inr x"
            and y: "cell_update cs' (data u1)
              (\<lambda>t. t\<lparr>label := Some (''Entrypoint_'' @ str_Address (address_style a') (Address (data u1)))\<rparr>) = Inr y"
            and xy: "map unlabel x = map unlabel y"
          have "map_sum id (map unlabel)
              (cell_update x (data u1) (\<lambda>t. t\<lparr>jump_from := jump_from t @ [Address 0]\<rparr>))
            = map_sum id (map unlabel)
              (cell_update y (data u1) (\<lambda>t. t\<lparr>jump_from := jump_from t @ [Address 0]\<rparr>))"
          proof (rule cell_update_erase [OF xy])
            fix c c' :: Cell
            assume h: "unlabel c = unlabel c'"
            from unlabel_eqD(2) [OF h] h
            show "unlabel (c\<lparr>jump_from := jump_from c @ [Address 0]\<rparr>)
                = unlabel (c'\<lparr>jump_from := jump_from c' @ [Address 0]\<rparr>)"
              by simp
          qed
          from sum_relD [OF this] show ?thesis
          proof (elim disjE exE conjE)
            fix r assume
              "cell_update x (data u1) (\<lambda>t. t\<lparr>jump_from := jump_from t @ [Address 0]\<rparr>) = Inl r"
              "cell_update y (data u1) (\<lambda>t. t\<lparr>jump_from := jump_from t @ [Address 0]\<rparr>) = Inl r"
            with u v u1 v1 d0 d1 True x y show ?thesis by (simp add: get_entry_def)
          next
            fix x2 y2 assume
              "cell_update x (data u1) (\<lambda>t. t\<lparr>jump_from := jump_from t @ [Address 0]\<rparr>) = Inr x2"
              "cell_update y (data u1) (\<lambda>t. t\<lparr>jump_from := jump_from t @ [Address 0]\<rparr>) = Inr y2"
              "map unlabel x2 = map unlabel y2"
            with u v u1 v1 d0 d1 True x y show ?thesis by (simp add: get_entry_def)
          qed
        qed
      qed
    qed
  qed
qed

lemma unlabel_data: "map unlabel cs = map unlabel cs' \<Longrightarrow> map data cs = map data cs'"
proof -
  assume "map unlabel cs = map unlabel cs'"
  then have "map data (map unlabel cs) = map data (map unlabel cs')" by simp
  then show ?thesis by (simp add: comp_def)
qed

lemma preparation_erase:
  "erase_labels (preparation a cs) = erase_labels (preparation a' cs)"
proof -
  have "map_sum id (map_prod (map unlabel) id) (get_entry a cs)
      = map_sum id (map_prod (map unlabel) id) (get_entry a' cs)"
    by (rule get_entry_erase) simp
  from sum_relD [OF this] show ?thesis
  proof (elim disjE exE conjE)
    fix r assume "get_entry a cs = Inl r" "get_entry a' cs = Inl r"
    then show ?thesis by (simp add: preparation_def erase_labels_def)
  next
    fix u v assume u: "get_entry a cs = Inr u" and v: "get_entry a' cs = Inr v"
      and uv: "map_prod (map unlabel) id u = map_prod (map unlabel) id v"
    obtain c1 e where u': "u = (c1, e)" by (cases u)
    obtain d1 e' where v': "v = (d1, e')" by (cases v)
    from uv u' v' have R1: "map unlabel c1 = map unlabel d1" and e: "e' = e" by simp_all
    have fl: "find_last c1 0xffff = find_last d1 0xffff"
      using unlabel_data [OF R1] by (rule find_last_data)
    show ?thesis
    proof (cases "find_last d1 0xffff")
      case (Inl r)
      with fl u v u' v' e show ?thesis by (simp add: preparation_def erase_labels_def)
    next
      case l: (Inr l)
      have "map_sum id (map unlabel) (main_sweep c1 e l) = map_sum id (map unlabel) (main_sweep d1 e l)"
        using R1 by (simp add: main_sweep_unlabel [symmetric])
      from sum_relD [OF this] show ?thesis
      proof (elim disjE exE conjE)
        fix r assume "main_sweep c1 e l = Inl r" "main_sweep d1 e l = Inl r"
        with l fl u v u' v' e show ?thesis by (simp add: preparation_def erase_labels_def)
      next
        fix c2 d2 assume m: "main_sweep c1 e l = Inr c2" "main_sweep d1 e l = Inr d2"
          and R2: "map unlabel c2 = map unlabel d2"
        have "map_sum id (map unlabel) (pre_entry c2 0 e) = map_sum id (map unlabel) (pre_entry d2 0 e)"
          using R2 by (simp add: pre_entry_unlabel [symmetric])
        from sum_relD [OF this] show ?thesis
        proof (elim disjE exE conjE)
          fix r assume "pre_entry c2 0 e = Inl r" "pre_entry d2 0 e = Inl r"
          with m l fl u v u' v' e show ?thesis by (simp add: preparation_def erase_labels_def)
        next
          fix c3 d3 assume q: "pre_entry c2 0 e = Inr c3" "pre_entry d2 0 e = Inr d3"
            and R3: "map unlabel c3 = map unlabel d3"
          have "map_sum id (map unlabel) (set_label a c3 e l)
              = map_sum id (map unlabel) (set_label a' d3 e l)"
            using R3 by (rule set_label_erase)
          from sum_relD [OF this] show ?thesis
          proof (elim disjE exE conjE)
            fix r assume "set_label a c3 e l = Inl r" "set_label a' d3 e l = Inl r"
            with q m l fl u v u' v' e show ?thesis by (simp add: preparation_def erase_labels_def)
          next
            fix c4 d4 assume "set_label a c3 e l = Inr c4" "set_label a' d3 e l = Inr d4"
              "map unlabel c4 = map unlabel d4"
            with q m l fl u v u' v' e show ?thesis by (simp add: preparation_def erase_labels_def)
          qed
        qed
      qed
    qed
  qed
qed

lemma set_label_style:
  "address_style a = address_style a' \<Longrightarrow> set_label a cs pc l = set_label a' cs pc l"
proof (induction a cs pc l rule: set_label.induct)
  case (1 a cells pc l)
  note h = "1.prems"
  show ?case
  proof (cases "pc \<le> l")
    case False
    then show ?thesis by (simp add: set_label_stop)
  next
    case True
    show ?thesis
    proof (cases "cell_at cells pc")
      case (Inl r)
      with True show ?thesis by (simp add: set_label_err_at)
    next
      case c: (Inr c)
      show ?thesis
      proof (cases "\<not> is_2nd_word c \<and> label c = None \<and> length (jump_from c) \<noteq> 0")
        case yes: True
        then have y: "\<not> is_2nd_word c" "label c = None" "jump_from c \<noteq> []" by auto
        show ?thesis
        proof (cases "cell_update cells pc
            (\<lambda>t. t\<lparr>label := Some (''loc_'' @ tab_pad (address_style a) (Address pc))\<rparr>)")
          case (Inl r)
          then have Inl': "cell_update cells pc
              (\<lambda>t. t\<lparr>label := Some (''loc_'' @ tab_pad (address_style a') (Address pc))\<rparr>) = Inl r"
            by (simp add: h)
          from set_label_err [OF True c y Inl] set_label_err [OF True c y Inl']
          show ?thesis by simp
        next
          case (Inr x)
          then have Inr': "cell_update cells pc
              (\<lambda>t. t\<lparr>label := Some (''loc_'' @ tab_pad (address_style a') (Address pc))\<rparr>) = Inr x"
            by (simp add: h)
          from "1.IH"(1) [OF True c yes Inr h] set_label_yes [OF True c y Inr]
            set_label_yes [OF True c y Inr']
          show ?thesis by simp
        qed
      next
        case no: False
        then have n: "is_2nd_word c \<or> label c \<noteq> None \<or> jump_from c = []" by auto
        from "1.IH"(2) [OF True c no h] set_label_no [OF True c n, where a = a]
          set_label_no [OF True c n, where a = a']
        show ?thesis by simp
      qed
    qed
  qed
qed

lemma preparation_style:
  assumes h: "address_style a = address_style a'"
  shows "preparation a cs = preparation a' cs"
  unfolding preparation_def get_entry_def set_label_style [OF h] h ..

text \<open>
  Claim C9, as the code has it. \<open>preparation\<close> reads one option, \<open>args.address_style\<close>,
  and only to build the text of the labels it assigns. For any two configurations the
  two runs fail alike or return the same \<open>entry\<close>, the same \<open>last\<close> and cells that agree
  in every field except the text of their labels (a cell is labelled in one run exactly
  when it is in the other); with the same address style the two results are equal.
\<close>

theorem trace_depends_on_address_style_only:
  "erase_labels (preparation a1 cells) = erase_labels (preparation a2 cells)
   \<and> (address_style a1 = address_style a2 \<longrightarrow> preparation a1 cells = preparation a2 cells)"
proof
  show "erase_labels (preparation a1 cells) = erase_labels (preparation a2 cells)"
    by (rule preparation_erase)
  show "address_style a1 = address_style a2 \<longrightarrow> preparation a1 cells = preparation a2 cells"
    by (rule impI) (rule preparation_style)
qed

theorem trace_depends_on_address_style_only_witness:
  "erase_labels (preparation default_args img1)
     = erase_labels (preparation (default_args\<lparr>address_style := Deci\<rparr>) img1)
   \<and> preparation default_args img1
     = preparation (default_args\<lparr>include_address := True, include_data := True,
         decode_all := True, no_warnings := True\<rparr>) img1"
  using trace_depends_on_address_style_only [where ?a1.0 = default_args
      and ?a2.0 = "default_args\<lparr>address_style := Deci\<rparr>" and cells = img1]
    trace_depends_on_address_style_only [where ?a1.0 = default_args
      and ?a2.0 = "default_args\<lparr>include_address := True, include_data := True,
         decode_all := True, no_warnings := True\<rparr>" and cells = img1]
  by (simp add: default_args_def)

text \<open>
  Claim C9 as stated fails for the labels: on \<open>img1\<close> the hexadecimal style labels the
  entry cell \<open>Entrypoint_0002\<close> and the decimal style labels it \<open>Entrypoint_2\<close>.
\<close>

theorem labels_depend_on_address_style:
  "preparation default_args img1 = Inr (img1_traced default_args, 2, 4)
   \<and> preparation (default_args\<lparr>address_style := Deci\<rparr>) img1
       = Inr (img1_traced (default_args\<lparr>address_style := Deci\<rparr>), 2, 4)
   \<and> label (img1_traced default_args ! 2) = Some ''Entrypoint_0002''
   \<and> label (img1_traced (default_args\<lparr>address_style := Deci\<rparr>) ! 2) = Some ''Entrypoint_2''"
  by (simp add: preparation_img1 img1_traced_def img1_length default_args_def
      str_Address_Hex_small str_Address_Deci_small)

section \<open>Cross-references of LOAD and STORE\<close>



lemma one_instruction_parts:
  assumes "one_instruction cs p = Inr (cs', p')"
  shows "\<exists>cs1 cs2. record_xref cs p = Inr cs1 \<and> advance cs1 p = Inr (cs2, p')
     \<and> (cs' = cs2 \<or> cell_update cs2 p' (\<lambda>t. t\<lparr>exec_from_prev := Some (Address p)\<rparr>) = Inr cs')"
  using assms by (auto simp: one_instruction_def split: sum.splits if_splits)

lemma cell_at_sweeps:
  assumes "list_all2 sweep_le cs cs'" and "cell_at cs i = Inr c"
  shows "\<exists>c'. cell_at cs' i = Inr c' \<and> sweep_le c c'"
proof -
  from assms(2) obtain k where k: "k < length cs" "py_index (length cs) i = Some k" "c = cs ! k"
    by (auto dest: cell_at_InrD)
  from sweeps_length [OF assms(1)] sweeps_nth [OF assms(1) k(1)] k show ?thesis
    by (simp add: cell_at_def)
qed


lemma advance_width:
  assumes "advance cs1 p = Inr (cs2, p')" and "cell_at cs1 p = Inr c1"
  shows "p' = (if opcode (data c1) < 7 then p + 2 else p + 1)"
  using assms by (auto simp: advance_def split: sum.splits if_splits)

lemma one_instruction_width:
  assumes i: "one_instruction cs p = Inr (cs', p')" and c: "cell_at cs p = Inr c"
  shows "p' = (if opcode (data c) < 7 then p + 2 else p + 1)"
proof -
  from one_instruction_parts [OF i] obtain cs1 cs2 where
    r: "record_xref cs p = Inr cs1" and a: "advance cs1 p = Inr (cs2, p')"
    by blast
  from cell_at_sweeps [OF record_xref_sweeps [OF r] c] obtain c1 where
    c1: "cell_at cs1 p = Inr c1" and "sweep_le c c1" by blast
  then have "data c1 = data c" by (simp add: sweep_le_def)
  with advance_width [OF a c1] show ?thesis by simp
qed

















section \<open>The emitter on a traced image\<close>

lemma and_then_Inr [simp]: "and_then (Inr x) f = f x"
  by (simp add: and_then_def)

lemma and_then_Inl [simp]: "and_then (Inl e) f = Inl e"
  by (simp add: and_then_def)

lemma ins_set_at_defined: "0 \<le> i \<Longrightarrow> i < 26 \<Longrightarrow> ins_set_at i = Inr (ins_set ! nat i)"
  by (simp add: ins_set_at_def py_index_def ins_set_def)

lemma opcode_nonneg: "0 \<le> x \<Longrightarrow> 0 \<le> opcode x"
  by (simp add: opcode_def drop_bit_eq_div pos_imp_zdiv_nonneg_iff)

lemma operands_defined:
  assumes "length cells = 0x10000" and "0 \<le> op" and "0 \<le> second" and "second \<le> 0xffff"
  shows "\<exists>r. operands a cells entry op r1 r2 second = Inr r"
  using assms by (auto simp: operands_def ins_set_at_defined cell_at_Inr)

lemma instruction_text_errors:
  assumes "length cells = 0x10000" and "0 \<le> data c" and "0 \<le> data n" and "data n \<le> 0xffff"
  shows "(\<exists>s. instruction_text a cells entry pc c n = Inr s)
       \<or> instruction_text a cells entry pc c n = Inl TypeError"
proof -
  from operands_defined [OF assms(1) opcode_nonneg [OF assms(2)] assms(3) assms(4)]
  obtain ops ub where
    o: "operands a cells entry (opcode (data c)) (reg1 (data c)) (reg2 (data c)) (data n) = Inr (ops, ub)"
    by fastforce
  show ?thesis
  proof (cases "operand_warning a (opcode (data c)) n")
    case (Inl e)
    then have "e = TypeError" by (simp add: operand_warning_def split: if_splits)
    with Inl o show ?thesis by (simp add: instruction_text_def)
  next
    case (Inr w)
    with o show ?thesis
      by (simp add: instruction_text_def ins_set_at_defined)
  qed
qed

lemma code_lines_err_at:
  "pc \<le> l \<Longrightarrow> cell_at cells pc = Inr c \<Longrightarrow> cell_at cells (pc + 1) = Inr n \<Longrightarrow>
   instruction_text a cells entry pc c n = Inl e \<Longrightarrow> code_lines a cells entry pc l = Inl e"
  by (subst code_lines.simps) simp

lemma code_lines_go:
  "pc \<le> l \<Longrightarrow> cell_at cells pc = Inr c \<Longrightarrow> cell_at cells (pc + 1) = Inr n \<Longrightarrow>
   instruction_text a cells entry pc c n = Inr s \<Longrightarrow>
   code_lines a cells entry pc l =
     (case code_lines a cells entry (pc + (if opcode (data c) \<ge> 7 then 1 else 2)) l of
        Inl e \<Rightarrow> Inl e | Inr r \<Rightarrow> Inr (s @ r))"
  by (subst code_lines.simps) simp

lemma code_lines_stop: "\<not> pc \<le> l \<Longrightarrow> code_lines a cells entry pc l = Inr []"
  by (subst code_lines.simps) simp

lemma code_lines_errors:
  "length cells = 0x10000 \<Longrightarrow> words16 cells \<Longrightarrow> 0 \<le> pc \<Longrightarrow> l \<le> 0xfffd \<Longrightarrow>
   (\<exists>s. code_lines a cells entry pc l = Inr s) \<or> code_lines a cells entry pc l = Inl TypeError"
proof (induction a cells entry pc l rule: code_lines.induct)
  case (1 a cells entry pc l)
  note len = "1.prems"(1) and w = "1.prems"(2)
  show ?case
  proof (cases "pc \<le> l")
    case False
    then show ?thesis by (simp add: code_lines_stop)
  next
    case True
    have c: "cell_at cells pc = Inr (cells ! nat pc)"
      and n: "cell_at cells (pc + 1) = Inr (cells ! nat (pc + 1))"
      using "1.prems" True by (simp_all add: cell_at_Inr)
    have b: "0 \<le> data (cells ! nat pc)" "0 \<le> data (cells ! nat (pc + 1))"
      "data (cells ! nat (pc + 1)) \<le> 0xffff"
      using words16_nth [OF w, of "nat pc"] words16_nth [OF w, of "nat (pc + 1)"] "1.prems" True
      by simp_all
    from instruction_text_errors [OF len b, of a entry pc] show ?thesis
    proof
      assume "\<exists>s. instruction_text a cells entry pc (cells ! nat pc) (cells ! nat (pc + 1)) = Inr s"
      then obtain s where
        s: "instruction_text a cells entry pc (cells ! nat pc) (cells ! nat (pc + 1)) = Inr s"
        by blast
      have "0 \<le> pc + (if 7 \<le> opcode (data (cells ! nat pc)) then 1 else 2)"
        using "1.prems"(3) by simp
      from "1.IH" [OF True c n s len w this "1.prems"(4)] code_lines_go [OF True c n s]
      show ?thesis by auto
    next
      assume "instruction_text a cells entry pc (cells ! nat pc) (cells ! nat (pc + 1)) = Inl TypeError"
      from code_lines_err_at [OF True c n this] show ?thesis by simp
    qed
  qed
qed

lemma data_line_defined:
  assumes "length cells = 0x10000" and "words16 cells" and "0 \<le> i" and "i \<le> 0xffff"
  shows "\<exists>s. data_line a cells i = Inr s"
proof -
  from words16_nth [OF assms(2), of "nat i"] assms have "0 \<le> data (cells ! nat i)" by simp
  from opcode_nonneg [OF this] assms show ?thesis
    by (simp add: data_line_def cell_at_Inr ins_set_at_defined)
qed

lemma data_lines_defined:
  "length cells = 0x10000 \<Longrightarrow> words16 cells \<Longrightarrow> 0 \<le> i \<Longrightarrow> entry \<le> 0x10000 \<Longrightarrow>
   \<exists>s. data_lines a cells i entry = Inr s"
proof (induction a cells i entry rule: data_lines.induct)
  case (1 a cells i entry)
  show ?case
  proof (cases "i < entry")
    case False
    then show ?thesis by (subst data_lines.simps) simp
  next
    case True
    with "1.prems" have "i \<le> 0xffff" by simp
    from data_line_defined [OF "1.prems"(1) "1.prems"(2) "1.prems"(3) this, of a]
    obtain s where s: "data_line a cells i = Inr s" by blast
    from "1.IH" [OF True s] "1.prems" obtain r where "data_lines a cells (i + 1) entry = Inr r"
      by auto
    with True s show ?thesis by (subst data_lines.simps) simp
  qed
qed

lemma data_section_defined:
  assumes "length cells = 0x10000" and "words16 cells" and "entry \<le> 0xffff"
  shows "\<exists>s. data_section a cells entry = Inr s"
proof -
  from data_lines_defined [OF assms(1) assms(2), of 2 entry a] assms(3)
  obtain d where "data_lines a cells 2 entry = Inr d" by auto
  with assms(1) show ?thesis
    by (simp add: data_section_def vector_warnings_def cell_at_Inr)
qed

lemma output_errors:
  assumes "length cells = 0x10000" and "words16 cells" and "0 \<le> entry" and "entry \<le> 0xffff"
    and "l \<le> 0xfffd"
  shows "(\<exists>s. output_listing a cells entry l = Inr s) \<or> output_listing a cells entry l = Inl TypeError"
proof -
  from data_section_defined [OF assms(1) assms(2) assms(4), of a]
  obtain d where d: "data_section a cells entry = Inr d" by blast
  from code_lines_errors [OF assms(1) assms(2) assms(3) assms(5), of a entry] d show ?thesis
    by (auto simp: output_listing_def)
qed

lemma one_instruction_forward:
  assumes "one_instruction cs p = Inr (cs', p')"
  shows "p < p'"
proof -
  from one_instruction_parts [OF assms] obtain cs1 where "record_xref cs p = Inr cs1" by blast
  then obtain c where "cell_at cs p = Inr c"
    by (auto simp: record_xref_def split: sum.splits)
  from one_instruction_width [OF assms this] show ?thesis by (simp split: if_splits)
qed

lemma visits_range: "visits l cells pc csk p \<Longrightarrow> pc \<le> p \<and> p \<le> l"
proof (induction rule: visits.induct)
  case (here pc cells)
  then show ?case by simp
next
  case (later pc cells cells' pc' csk p)
  from one_instruction_forward [OF later.hyps(2)] later.IH show ?case by simp
qed

lemma emits_range: "emits l cells pc p \<Longrightarrow> pc \<le> p \<and> p \<le> l"
  by (induction rule: emits.induct) (auto split: if_splits)

text \<open>
  Claim C10. Take a 65536-cell image of 16-bit words whose highest nonzero word is at
  \<open>h \<le> 65533\<close>. Then \<open>preparation\<close> returns, with \<open>last = h\<close> and an entry in
  \<open>[0, 65535]\<close>. Every address \<open>p\<close> at which the main sweep calls \<open>one_instruction\<close>
  satisfies \<open>0 \<le> p\<close> and \<open>p + 2 \<le> 65535\<close>, so the second word and the cell that receives
  \<open>exec_from_prev\<close> lie inside the image. Every \<open>pc\<close> at which the loop of \<open>output\<close>
  runs satisfies \<open>0 \<le> pc\<close> and \<open>pc + 1 \<le> 65535\<close>, so the read of \<open>cells[pc+1]\<close> lies
  inside the image, and \<open>output\<close> raises no IndexError at any of its cell accesses.
\<close>

theorem accesses_stay_inside_image:
  assumes "length cells = 0x10000" and "words16 cells"
    and "0 \<le> h" and "h \<le> 0xfffd" and "data (cells ! nat h) \<noteq> 0"
    and "\<forall>k. nat h < k \<and> k \<le> 0xffff \<longrightarrow> data (cells ! k) = 0"
  shows "\<exists>cs e. preparation a cells = Inr (cs, e, h) \<and> 0 \<le> e \<and> e \<le> 0xffff
           \<and> (\<forall>cs1 csk p. get_entry a cells = Inr (cs1, e) \<and> visits h cs1 e csk p
                 \<longrightarrow> 0 \<le> p \<and> p + 2 \<le> 0xffff)
           \<and> (\<forall>p. emits h cs e p \<longrightarrow> 0 \<le> p \<and> p + 1 \<le> 0xffff)
           \<and> output_listing a cs e h \<noteq> Inl IndexError"
proof -
  from preparation_total [OF assms, of a] obtain cs e where
    p: "preparation a cells = Inr (cs, e, h)" by blast
  note d = preparation_data [OF p assms(1) assms(2)]
  have w: "words16 cs" using d(1) assms(2) by (rule words16_data)
  from output_errors [OF d(2) w d(3) d(4) assms(4), of a]
  have o: "output_listing a cs e h \<noteq> Inl IndexError" by auto
  have v: "0 \<le> q \<and> q + 2 \<le> 0xffff" if "visits h cs1 e csk q" for cs1 csk q
    using visits_range [OF that] d(3) assms(4) by simp
  have "0 \<le> q \<and> q + 1 \<le> 0xffff" if "emits h cs e q" for q
    using emits_range [OF that] d(3) assms(4) by simp
  with v p d(3) d(4) o show ?thesis by blast
qed

theorem accesses_stay_inside_image_witness:
  "\<exists>cs e. preparation default_args img1 = Inr (cs, e, 4)
     \<and> output_listing default_args cs e 4 \<noteq> Inl IndexError"
proof -
  from accesses_stay_inside_image [OF _ img1_words16, of 4 default_args]
  show ?thesis
    by (simp add: img1_length img1_nth img1_above Cell_init_def) blast
qed

section \<open>Inputs on which the program aborts\<close>

lemma img_jeq_length: "length img_jeq = 65536"
  by (simp add: img_jeq_def)

lemma img_jeq_nth:
  "img_jeq ! 0 = Cell_init 0x0100" "img_jeq ! 1 = Cell_init 1" "img_jeq ! Suc 0 = Cell_init 1"
  "img_jeq ! 2 = Cell_init 0"
  by (simp_all add: img_jeq_def)

lemma preparation_img_jeq: "preparation a img_jeq = Inr (img_jeq_traced, 0, 1)"
proof -
  have g: "get_entry a img_jeq = Inr (img_jeq, 0)"
    by (rule get_entry_direct) (simp_all add: img_jeq_length img_jeq_nth Cell_init_def)
  have f: "find_last img_jeq 0xffff = Inr 1"
    by (rule find_last_down) (simp_all add: img_jeq_length img_jeq_nth Cell_init_def img_jeq_def)
  have i1: "one_instruction img_jeq 0 = Inr (img_jeq_traced, 2)"
    by (simp add: one_instruction_def record_xref_def advance_def cell_at_Inr cell_update_Inr
        opcode_def img_jeq_length img_jeq_nth Cell_init_def img_jeq_traced_def)
  have m: "main_sweep img_jeq 0 1 = Inr img_jeq_traced"
    by (simp add: main_sweep_go [OF _ i1] main_sweep_stop)
  have q: "pre_entry img_jeq_traced 0 0 = Inr img_jeq_traced"
    by (simp add: pre_entry_stop)
  have l0: "cell_at img_jeq_traced 0 = Inr (Cell_init 0x0100)"
    and l1: "cell_at img_jeq_traced 1 = Inr ((Cell_init 1)\<lparr>is_2nd_word := True, jump_from := [Address 0]\<rparr>)"
    by (simp_all add: cell_at_Inr img_jeq_traced_def img_jeq_length img_jeq_nth)
  have s: "set_label a img_jeq_traced 0 1 = Inr img_jeq_traced"
    using set_label_no [OF _ l0, of 1 a] set_label_no [OF _ l1, of 1 a]
    by (simp add: Cell_init_def set_label_stop)
  show ?thesis
    by (simp add: preparation_def g f m q s)
qed

lemma output_img_jeq: "output_listing default_args img_jeq_traced 0 1 = Inl TypeError"
proof -
  have c: "cell_at img_jeq_traced 0 = Inr (Cell_init 0x0100)"
    and n: "cell_at img_jeq_traced (0 + 1) = Inr ((Cell_init 1)\<lparr>is_2nd_word := True, jump_from := [Address 0]\<rparr>)"
    by (simp_all add: cell_at_Inr img_jeq_traced_def img_jeq_length img_jeq_nth)
  have "instruction_text default_args img_jeq_traced 0 0 (Cell_init 0x0100)
      ((Cell_init 1)\<lparr>is_2nd_word := True, jump_from := [Address 0]\<rparr>) = Inl TypeError"
    by (simp add: instruction_text_def operands_def operand_warning_def ins_set_at_defined
        cell_at_Inr img_jeq_traced_def img_jeq_length opcode_def Cell_init_def default_args_def)
  from code_lines_err_at [OF _ c n this, of 1] show ?thesis
    by (simp add: output_listing_def data_section_def)
qed

lemma find_last_all_zero:
  "\<forall>c \<in> set cs. data c = 0 \<Longrightarrow> find_last cs n = Inl IndexError"
proof (induction cs n rule: find_last.induct)
  case (1 cells n)
  show ?case
  proof (cases "cell_at cells n")
    case (Inl e)
    then have "e = IndexError" by (simp add: cell_at_def split: option.splits)
    with Inl show ?thesis by (subst find_last.simps) simp
  next
    case (Inr c)
    then have "c \<in> set cells" by (auto dest!: cell_at_InrD)
    with "1.prems" have z: "data c = 0" by simp
    from "1.IH" [OF Inr z "1.prems"] Inr z show ?thesis
      by (subst find_last.simps) simp
  qed
qed

lemma preparation_all_zero:
  "preparation a (replicate 0x10000 (Cell_init 0)) = Inl IndexError"
proof -
  define Z where "Z = replicate 0x10000 (Cell_init 0)"
  have len: "length Z = 0x10000" by (simp add: Z_def)
  have z: "data (Z ! 0) = 0" "0 \<le> data (Z ! 1)" "data (Z ! 1) \<le> 0xffff"
    by (simp_all add: Z_def Cell_init_def)
  from get_entry_indirect [OF len z, of a] obtain cs1 e where g: "get_entry a Z = Inr (cs1, e)"
    by blast
  have "\<forall>c \<in> set Z. data c = 0" by (simp add: Z_def Cell_init_def)
  then have "find_last Z 0xffff = Inl IndexError" by (rule find_last_all_zero)
  with find_last_data [OF get_entry_data [OF g]] have "find_last cs1 0xffff = Inl IndexError"
    by simp
  with g show ?thesis by (simp add: preparation_def Z_def [symmetric])
qed

text \<open>
  Claim C1 fails on the code. The image \<open>img_jeq\<close> (A1 = 0x0100, B1 = 1) is traced
  without error, and \<open>output\<close> with the default options raises TypeError at the warning
  for a jump into an operand word, where the f-string calls \<open>ins_set(opcode_)\<close>. On the
  image of an empty worksheet \<open>preparation\<close> raises IndexError: the scan for the last
  nonzero word runs past both ends of the list.
\<close>

theorem output_aborts_with_TypeError:
  "load_excel [(1, 1, 0x0100), (1, 2, 1)] = Inr img_jeq
   \<and> preparation default_args img_jeq = Inr (img_jeq_traced, 0, 1)
   \<and> output_listing default_args img_jeq_traced 0 1 = Inl TypeError
   \<and> load_excel [] = Inr (replicate 0x10000 (Cell_init 0))
   \<and> preparation default_args (replicate 0x10000 (Cell_init 0)) = Inl IndexError"
proof -
  have "load_excel [(1, 1, 0x0100), (1, 2, 1)] = Inr img_jeq"
    by (simp add: load_excel_def cell_update_Inr img_jeq_def Cell_init_def)
  moreover have "load_excel [] = Inr (replicate 0x10000 (Cell_init 0))"
    by (simp add: load_excel_def)
  ultimately show ?thesis
    by (simp add: preparation_img_jeq output_img_jeq preparation_all_zero)
qed

end
